theory Spec2Isabelle
  imports Complex_Main "HOL-Library.Word" "HOL-Library.Signed_Division"
begin

unbundle bit_operations_syntax

section \<open>C values and results\<close>

text \<open>
  A call of the C program either returns a value or ends the process through
  \<open>fatal(msg)\<close>, which prints the message and calls \<open>exit(1)\<close> (error.c).
  Where a function can also read outside an array or loop forever, its model returns
  an \<open>option\<close> around this type, and \<open>None\<close> stands for "no defined result".
\<close>

datatype 'a outcome = Returns 'a | Fatal string

text \<open>
  \<open>size_t\<close> is taken as 64 bits wide and \<open>int\<close> as 32 bits wide in two's complement.
  Positions in the token array are natural numbers; the conversion of an \<open>int\<close> to
  \<open>size_t\<close> and the \<open>size_t\<close> additions that involve a converted \<open>int\<close> are written
  out with their wrap-around.
\<close>

definition size_t_of_int :: "int \<Rightarrow> nat" where
  "size_t_of_int i = nat (i mod 2 ^ 64)"

definition size_t_add :: "nat \<Rightarrow> nat \<Rightarrow> nat" where
  "size_t_add a b = (a + b) mod 2 ^ 64"

definition size_t_sub :: "nat \<Rightarrow> nat \<Rightarrow> nat" where
  "size_t_sub a b = nat ((int a - int b) mod 2 ^ 64)"

definition int_wrap :: "int \<Rightarrow> int" where
  "int_wrap i = sint (word_of_int i :: 32 word)"

definition c_add :: "int \<Rightarrow> int \<Rightarrow> int" where
  "c_add a b = int_wrap (a + b)"

definition c_sub :: "int \<Rightarrow> int \<Rightarrow> int" where
  "c_sub a b = int_wrap (a - b)"

definition c_mul :: "int \<Rightarrow> int \<Rightarrow> int" where
  "c_mul a b = int_wrap (a * b)"

definition c_div :: "int \<Rightarrow> int \<Rightarrow> int" where
  "c_div a b = int_wrap (a sdiv b)"

section \<open>hash.c: the forward-reference table\<close>

subsection \<open>Inputs\<close>

text \<open>
  A \<open>struct text\<close> gives the name of a file and the half-open range of positions its
  tokens occupy in the token array. The name is a \<open>const char *\<close> that the program
  compares by address, so its type is left open.
\<close>

record 'f struct_text =
  tx_fname :: 'f
  tx_start :: nat
  tx_limit :: nat

text \<open>
  The globals that hash.c reads. \<open>Token\<close>, \<open>Token2int\<close> and
  \<open>May_Be_Start_Of_Run\<close> come from token.h and language.h, which are not among the
  sources: the token type and the two operations are parameters. \<open>TryCalloc\<close> says
  for which table sizes the allocator hands out memory. \<open>Number_of_Texts\<close> is
  the length of \<open>Text\<close>.
\<close>

record ('tok, 'f) sim =
  Token2int :: "'tok \<Rightarrow> int"
  May_Be_Start_Of_Run :: "'tok \<Rightarrow> bool"
  Token_Array :: "'tok list"
  Text :: "'f struct_text list"
  Min_Run_Size :: int
  TryCalloc :: "nat \<Rightarrow> bool"

definition Token_Array_Length :: "('tok, 'f) sim \<Rightarrow> nat" where
  "Token_Array_Length g = length (Token_Array g)"

text \<open>Reading \<open>Token_Array[k]\<close>; a read outside the array has no defined result.\<close>

definition Token_at :: "('tok, 'f) sim \<Rightarrow> nat \<Rightarrow> 'tok option" where
  "Token_at g k = (if k < length (Token_Array g) then Some (Token_Array g ! k) else None)"

subsection \<open>The hash table and the sample positions\<close>

definition N_SAMPLES :: nat where
  "N_SAMPLES = 24"

definition prime :: "nat list" where
  "prime =
    [14051, 28111, 56239, 112507, 225023, 450067, 900139, 1800311, 3600659, 7201351,
     14402743, 28805519, 57611039, 115222091, 230444239, 460888499, 921777067,
     1843554151, 3687108307, 7374216631, 14748433279, 29496866579, 58993733159,
     117987466379, 235974932759, 471949865531, 943899731087]"

text \<open>
  \<open>while (prime[n] < Token_Array_Length()) n++;\<close> The loop has no bound of its own:
  past the last entry it reads outside \<open>prime[]\<close>.
\<close>

function ideal_size :: "nat \<Rightarrow> nat \<Rightarrow> nat option" where
  "ideal_size len n =
     (if n < length prime
      then (if prime ! n < len then ideal_size len (n + 1) else Some n)
      else None)"
  by pat_completeness auto
termination
  by (relation "measure (\<lambda>(len, n). length prime - n)") auto

declare ideal_size.simps [simp del]

text \<open>
  The step-down loop: try \<open>prime[n]\<close>, then \<open>prime[n - 1]\<close>, down to \<open>prime[0]\<close>,
  and stop at the first size that can be allocated.
\<close>

primrec step_down :: "(nat \<Rightarrow> bool) \<Rightarrow> nat \<Rightarrow> nat option" where
  "step_down alloc 0 = (if alloc (prime ! 0) then Some (prime ! 0) else None)"
| "step_down alloc (Suc n) =
     (if alloc (prime ! Suc n) then Some (prime ! Suc n) else step_down alloc n)"

text \<open>
  \<open>sample_pos[n] = (2 * n * (Min_Run_Size - 1) + (N_SAMPLES - 1)) / (2 * (N_SAMPLES - 1))\<close>,
  computed in \<open>int\<close> and stored into a \<open>size_t\<close>.
\<close>

definition sample_pos_entry :: "int \<Rightarrow> nat \<Rightarrow> nat" where
  "sample_pos_entry mrs n =
     size_t_of_int
       (c_div (c_add (c_mul (c_mul 2 (int n)) (c_sub mrs 1)) (c_sub (int N_SAMPLES) 1))
              (c_mul 2 (c_sub (int N_SAMPLES) 1)))"

definition find_sample_positions :: "int \<Rightarrow> nat list" where
  "find_sample_positions mrs = map (sample_pos_entry mrs) [0..<N_SAMPLES]"

text \<open>\<open>init_hash_table\<close> returns the table size and the sample positions.\<close>

definition init_hash_table :: "('tok, 'f) sim \<Rightarrow> (nat \<times> nat list) outcome option" where
  "init_hash_table g =
     (case ideal_size (Token_Array_Length g) 0 of
        None \<Rightarrow> None
      | Some n \<Rightarrow>
          (case step_down (TryCalloc g) n of
             None \<Rightarrow> Some (Fatal ''out of memory'')
           | Some sz \<Rightarrow> Some (Returns (sz, find_sample_positions (Min_Run_Size g)))))"

subsection \<open>The two hash functions\<close>

text \<open>
  \<open>hash1\<close> works on \<open>uint32_t\<close>: a circular left shift over the 31 right-most bits,
  then the exclusive or with the next sampled token.
\<close>

definition HASH_W :: nat where
  "HASH_W = 32"

definition hash1_shift :: "32 word \<Rightarrow> 32 word" where
  "hash1_shift h_val =
     (if push_bit 1 h_val AND push_bit (HASH_W - 1) 1 \<noteq> 0
      then push_bit 1 h_val XOR (push_bit (HASH_W - 1) 1 OR 1)
      else push_bit 1 h_val)"

primrec hash1_loop :: "('tok, 'f) sim \<Rightarrow> nat \<Rightarrow> nat list \<Rightarrow> 32 word \<Rightarrow> 32 word option" where
  "hash1_loop g p [] h_val = Some h_val"
| "hash1_loop g p (s # ss) h_val =
     (case Token_at g (p + s) of
        None \<Rightarrow> None
      | Some tk \<Rightarrow> hash1_loop g p ss (hash1_shift h_val XOR word_of_int (Token2int g tk)))"

definition hash1 :: "('tok, 'f) sim \<Rightarrow> nat list \<Rightarrow> nat \<Rightarrow> nat option" where
  "hash1 g sp p = map_option unat (hash1_loop g p (map ((!) sp) [0..<N_SAMPLES]) 0)"

text \<open>
  \<open>hash2\<close> works on \<open>vlong_uint\<close>, whose declaration (any_int.h) is not among the
  sources; it is taken as 64 bits wide.
\<close>

definition VLONG_W :: nat where
  "VLONG_W = 64"

definition extract_Token :: "('tok, 'f) sim \<Rightarrow> nat list \<Rightarrow> nat \<Rightarrow> nat \<Rightarrow> 64 word option" where
  "extract_Token g sp p pos =
     map_option (\<lambda>tk. word_of_int (Token2int g tk)) (Token_at g (p + sp ! pos))"

definition hash2 :: "('tok, 'f) sim \<Rightarrow> nat list \<Rightarrow> nat \<Rightarrow> 64 word option" where
  "hash2 g sp p =
     (let pos_last_sample = N_SAMPLES - 1 in
      Option.bind (extract_Token g sp p 0) (\<lambda>t0.
      Option.bind (extract_Token g sp p pos_last_sample) (\<lambda>t1.
      Option.bind (extract_Token g sp p (pos_last_sample div 2)) (\<lambda>t2.
      Option.bind (extract_Token g sp p (pos_last_sample * 1 div 4)) (\<lambda>t3.
      Option.bind (extract_Token g sp p (pos_last_sample * 3 div 4)) (\<lambda>t4.
        Some (push_bit 0 t0
              XOR push_bit (VLONG_W * 1 div 5) t1
              XOR push_bit (VLONG_W * 2 div 5) t2
              XOR push_bit (VLONG_W * 3 div 5) t3
              XOR push_bit (VLONG_W * 4 div 5) t4)))))))"

subsection \<open>The first sweep\<close>

text \<open>
  The body of the inner loop at position \<open>j\<close>, on the pair of \<open>forward_reference\<close> and
  \<open>last_index\<close>.
\<close>

definition index_position ::
  "('tok, 'f) sim \<Rightarrow> nat list \<Rightarrow> nat \<Rightarrow> nat \<Rightarrow> nat list \<times> nat list \<Rightarrow> (nat list \<times> nat list) option"
where
  "index_position g sp M j s =
     (case s of (fr, li) \<Rightarrow>
      (case Token_at g j of
         None \<Rightarrow> None
       | Some tk \<Rightarrow>
           if May_Be_Start_Of_Run g tk
           then (case hash1 g sp j of
                   None \<Rightarrow> None
                 | Some hv \<Rightarrow>
                     if M = 0 \<or> length li \<le> hv mod M then None
                     else if li ! (hv mod M) \<noteq> 0
                     then (if li ! (hv mod M) < length fr
                           then Some (fr[li ! (hv mod M) := j], li[hv mod M := j])
                           else None)
                     else Some (fr, li[hv mod M := j]))
           else Some s))"

text \<open>
  \<open>for (j = txt->tx_start; j + Min_Run_Size - 1 < txt->tx_limit; j++)\<close>, where
  \<open>Min_Run_Size\<close> is converted to \<open>size_t\<close>.
\<close>

partial_function (option) text_loop ::
  "('tok, 'f) sim \<Rightarrow> nat list \<Rightarrow> nat \<Rightarrow> nat \<Rightarrow> nat \<Rightarrow> nat list \<times> nat list \<Rightarrow> (nat list \<times> nat list) option"
where
  "text_loop g sp M lmt j s =
     (if size_t_sub (size_t_add j (size_t_of_int (Min_Run_Size g))) 1 < lmt
      then (case index_position g sp M j s of
              None \<Rightarrow> None
            | Some s' \<Rightarrow> text_loop g sp M lmt (size_t_add j 1) s')
      else Some s)"

declare text_loop.simps [code]

primrec texts_loop ::
  "('tok, 'f) sim \<Rightarrow> nat list \<Rightarrow> nat \<Rightarrow> 'f struct_text list \<Rightarrow> nat list \<times> nat list \<Rightarrow> (nat list \<times> nat list) option"
where
  "texts_loop g sp M [] s = Some s"
| "texts_loop g sp M (txt # txts) s =
     (case text_loop g sp M (tx_limit txt) (tx_start txt) s of
        None \<Rightarrow> None
      | Some s' \<Rightarrow> texts_loop g sp M txts s')"

definition make_forward_references_hash1 ::
  "('tok, 'f) sim \<Rightarrow> nat list \<Rightarrow> (nat list \<times> nat \<times> nat list) outcome option"
where
  "make_forward_references_hash1 g fr =
     (case init_hash_table g of
        None \<Rightarrow> None
      | Some (Fatal msg) \<Rightarrow> Some (Fatal msg)
      | Some (Returns (M, sp)) \<Rightarrow>
          (case texts_loop g sp M (Text g) (fr, replicate M 0) of
             None \<Rightarrow> None
           | Some (fr', li) \<Rightarrow> Some (Returns (fr', M, sp))))"

subsection \<open>The second sweep\<close>

text \<open>
  \<open>while ((j = forward_reference[j]) && hash2(&Token_Array[j]) != h2) {}\<close>: the result
  is the value of \<open>j\<close> when the loop ends.
\<close>

partial_function (option) chain_search ::
  "('tok, 'f) sim \<Rightarrow> nat list \<Rightarrow> nat list \<Rightarrow> 64 word \<Rightarrow> nat \<Rightarrow> nat option"
where
  "chain_search g sp fr h2 j =
     (if j < length fr
      then (if fr ! j = 0 then Some 0
            else (case hash2 g sp (fr ! j) of
                    None \<Rightarrow> None
                  | Some h \<Rightarrow> if h \<noteq> h2 then chain_search g sp fr h2 (fr ! j) else Some (fr ! j)))
      else None)"

declare chain_search.simps [code]

partial_function (option) clean_loop ::
  "('tok, 'f) sim \<Rightarrow> nat list \<Rightarrow> nat \<Rightarrow> nat list \<Rightarrow> nat list option"
where
  "clean_loop g sp i fr =
     (if size_t_add i (size_t_of_int (Min_Run_Size g)) < Token_Array_Length g
      then (case hash2 g sp i of
              None \<Rightarrow> None
            | Some h2 \<Rightarrow>
                (case chain_search g sp fr h2 i of
                   None \<Rightarrow> None
                 | Some j \<Rightarrow>
                     if i < length fr then clean_loop g sp (size_t_add i 1) (fr[i := j])
                     else None))
      else Some fr)"

declare clean_loop.simps [code]

definition clean_forward_references_hash2 ::
  "('tok, 'f) sim \<Rightarrow> nat list \<Rightarrow> nat list \<Rightarrow> nat list option"
where
  "clean_forward_references_hash2 g sp fr = clean_loop g sp 0 fr"

subsection \<open>Construction and query\<close>

record hash_state =
  forward_reference :: "nat list"
  n_forward_references :: nat
  last_index_table_size :: nat
  sample_pos :: "nat list"

definition Make_Forward_References :: "('tok, 'f) sim \<Rightarrow> hash_state outcome option" where
  "Make_Forward_References g =
     (case make_forward_references_hash1 g (replicate (Token_Array_Length g) 0) of
        None \<Rightarrow> None
      | Some (Fatal msg) \<Rightarrow> Some (Fatal msg)
      | Some (Returns (fr1, M, sp)) \<Rightarrow>
          (case clean_forward_references_hash2 g sp fr1 of
             None \<Rightarrow> None
           | Some fr2 \<Rightarrow>
               Some (Returns \<lparr>forward_reference = fr2,
                               n_forward_references = Token_Array_Length g,
                               last_index_table_size = M,
                               sample_pos = sp\<rparr>)))"

definition Forward_Reference :: "hash_state \<Rightarrow> nat \<Rightarrow> nat outcome" where
  "Forward_Reference st i =
     (if i = 0 \<or> i \<ge> n_forward_references st
      then Fatal ''internal error, bad forward reference''
      else Returns (forward_reference st ! i))"

subsection \<open>Vocabulary for the properties\<close>

text \<open>
  The texts are laid down in order and do not overlap: each starts at or after the
  limit of the one before, the first at or after position 1, and none ends beyond the
  token array.
\<close>

fun texts_ok :: "nat \<Rightarrow> nat \<Rightarrow> 'f struct_text list \<Rightarrow> bool" where
  "texts_ok N lo [] = True"
| "texts_ok N lo (txt # txts) =
     (lo \<le> tx_start txt \<and> tx_start txt \<le> tx_limit txt \<and> tx_limit txt \<le> N \<and>
      texts_ok N (tx_limit txt) txts)"

text \<open>
  A valid input of \<open>Make_Forward_References\<close>: a run size for which the sample positions
  are computed without overflow, a token array that holds at least the slot 0 and is no
  longer than the largest entry of \<open>prime[]\<close>, texts in order, and an allocator that
  grants a table of some size at or below the ideal one.
\<close>

definition valid_input :: "('tok, 'f) sim \<Rightarrow> bool" where
  "valid_input g =
     (1 \<le> Min_Run_Size g \<and> Min_Run_Size g \<le> 46684427 \<and>
      1 \<le> Token_Array_Length g \<and> Token_Array_Length g \<le> 943899731087 \<and>
      texts_ok (Token_Array_Length g) 1 (Text g) \<and>
      (\<exists>k < length prime. (\<forall>i < k. prime ! i < Token_Array_Length g) \<and> TryCalloc g (prime ! k)))"

text \<open>
  The positions that the first sweep indexes: those of the inner loop of some text, that
  is with the whole window inside the text, at which a run may start.
\<close>

definition indexed :: "('tok, 'f) sim \<Rightarrow> nat \<Rightarrow> bool" where
  "indexed g j =
     (\<exists>txt \<in> set (Text g).
        tx_start txt \<le> j \<and> j + nat (Min_Run_Size g) - 1 < tx_limit txt \<and>
        May_Be_Start_Of_Run g (Token_Array g ! j))"

text \<open>
  The chain of a position: the entries \<open>fr[p]\<close>, \<open>fr[fr[p]]\<close>, ... up to the first 0.
  The walk is cut off after as many steps as the array has entries.
\<close>

fun chain_from :: "nat list \<Rightarrow> nat \<Rightarrow> nat \<Rightarrow> nat list" where
  "chain_from fr 0 p = []"
| "chain_from fr (Suc n) p =
     (if p < length fr \<and> fr ! p \<noteq> 0 then fr ! p # chain_from fr n (fr ! p) else [])"

definition chain :: "nat list \<Rightarrow> nat \<Rightarrow> nat list" where
  "chain fr p = chain_from fr (length fr) p"

text \<open>
  The windows at \<open>p\<close> and \<open>q\<close> match under both hashes: \<open>hash1\<close> modulo the table size,
  and \<open>hash2\<close>; both windows must lie inside the token array.
\<close>

definition hash_match :: "('tok, 'f) sim \<Rightarrow> hash_state \<Rightarrow> nat \<Rightarrow> nat \<Rightarrow> bool" where
  "hash_match g st p q =
     (case (hash1 g (sample_pos st) p, hash1 g (sample_pos st) q) of
        (Some hp, Some hq) \<Rightarrow>
           hq mod last_index_table_size st = hp mod last_index_table_size st \<and>
           (case (hash2 g (sample_pos st) p, hash2 g (sample_pos st) q) of
              (Some kp, Some kq) \<Rightarrow> kq = kp
            | _ \<Rightarrow> False)
      | _ \<Rightarrow> False)"

text \<open>
  Notions of the proofs. \<open>bucket\<close> is the index into \<open>last_index\<close>. \<open>link1 b J p v\<close>
  says what the first sweep leaves in \<open>fr[p]\<close> once the positions \<open>J\<close> are indexed: the
  next position of \<open>J\<close> in the bucket of \<open>p\<close>, or 0; \<open>latest\<close> says the same of
  \<open>last_index\<close>, and \<open>link2\<close> of \<open>fr[p]\<close> after the second sweep.
\<close>

definition bucket :: "('tok, 'f) sim \<Rightarrow> nat list \<Rightarrow> nat \<Rightarrow> nat \<Rightarrow> nat" where
  "bucket g sp M j = (case hash1 g sp j of Some hv \<Rightarrow> hv mod M | None \<Rightarrow> 0)"

definition starts_run :: "('tok, 'f) sim \<Rightarrow> nat \<Rightarrow> bool" where
  "starts_run g j = May_Be_Start_Of_Run g (Token_Array g ! j)"

definition run_starts :: "('tok, 'f) sim \<Rightarrow> nat \<Rightarrow> nat \<Rightarrow> nat set" where
  "run_starts g lo lmt = {k. lo \<le> k \<and> k + nat (Min_Run_Size g) \<le> lmt \<and> starts_run g k}"

definition link1 :: "(nat \<Rightarrow> nat) \<Rightarrow> nat set \<Rightarrow> nat \<Rightarrow> nat \<Rightarrow> bool" where
  "link1 b J p v =
     (if p \<in> J \<and> (\<exists>q \<in> J. p < q \<and> b q = b p)
      then v \<in> J \<and> p < v \<and> b v = b p \<and> (\<forall>r \<in> J. p < r \<and> b r = b p \<longrightarrow> v \<le> r)
      else v = 0)"

definition latest :: "(nat \<Rightarrow> nat) \<Rightarrow> nat set \<Rightarrow> nat \<Rightarrow> nat \<Rightarrow> bool" where
  "latest b J h v =
     (if \<exists>q \<in> J. b q = h
      then v \<in> J \<and> b v = h \<and> (\<forall>r \<in> J. b r = h \<longrightarrow> r \<le> v)
      else v = 0)"

definition inv1 :: "nat \<Rightarrow> nat \<Rightarrow> (nat \<Rightarrow> nat) \<Rightarrow> nat set \<Rightarrow> nat list \<times> nat list \<Rightarrow> bool" where
  "inv1 N M b J s =
     (length (fst s) = N \<and> length (snd s) = M \<and>
      (\<forall>p < N. link1 b J p (fst s ! p)) \<and>
      (\<forall>h < M. latest b J h (snd s ! h)))"

definition step1 :: "(nat \<Rightarrow> nat) \<Rightarrow> nat \<Rightarrow> nat list \<times> nat list \<Rightarrow> nat list \<times> nat list" where
  "step1 b j s =
     (if snd s ! b j \<noteq> 0 then (fst s)[snd s ! b j := j] else fst s, (snd s)[b j := j])"

definition link2 :: "(nat \<Rightarrow> nat) \<Rightarrow> (nat \<Rightarrow> 'h) \<Rightarrow> nat set \<Rightarrow> nat \<Rightarrow> nat \<Rightarrow> bool" where
  "link2 b H J p v =
     (if p \<in> J \<and> (\<exists>q \<in> J. p < q \<and> b q = b p \<and> H q = H p)
      then v \<in> J \<and> p < v \<and> b v = b p \<and> H v = H p \<and>
           (\<forall>r \<in> J. p < r \<and> b r = b p \<and> H r = H p \<longrightarrow> v \<le> r)
      else v = 0)"

text \<open>
  A small input for trying the construction: two texts of two tokens each, all four
  tokens equal, and a run size of 2. Slot 0 of the token array is not used.
\<close>

definition two_texts :: "(nat, string) sim" where
  "two_texts = \<lparr>Token2int = int, May_Be_Start_Of_Run = (\<lambda>_. True), Token_Array = [0, 7, 7, 7, 7 :: nat],
      Text = [\<lparr>tx_fname = ''A'', tx_start = 1, tx_limit = 3\<rparr>,
              \<lparr>tx_fname = ''B'', tx_start = 3, tx_limit = 5\<rparr>],
      Min_Run_Size = 2, TryCalloc = (\<lambda>_. True)\<rparr>"

section \<open>percentages.c: the percentage aggregator\<close>

subsection \<open>Match records\<close>

text \<open>
  A \<open>struct match\<close>; the list \<open>match_start\<close> linked through \<open>ma_next\<close> is a list of
  these records. A \<open>struct chunk\<close> and a \<open>struct run\<close> (runs.h, not among the sources)
  carry the fields that percentages.c reads: \<open>ch_text\<close> points into \<open>Text[]\<close> and is
  the index of that entry.
\<close>

record 'f match =
  ma_fname0 :: 'f
  ma_fname1 :: 'f
  ma_size :: nat
  ma_size0 :: nat

record chunk =
  ch_text :: nat

record run =
  rn_chunk0 :: chunk
  rn_chunk1 :: chunk
  rn_size :: nat

fun do_add_to_precentages ::
  "'f struct_text list \<Rightarrow> chunk \<Rightarrow> chunk \<Rightarrow> nat \<Rightarrow> 'f match list \<Rightarrow> 'f match list"
where
  "do_add_to_precentages txts ch0 ch1 sz [] =
     [\<lparr>ma_fname0 = tx_fname (txts ! ch_text ch0),
       ma_fname1 = tx_fname (txts ! ch_text ch1),
       ma_size = sz,
       ma_size0 = size_t_sub (tx_limit (txts ! ch_text ch0)) (tx_start (txts ! ch_text ch0))\<rparr>]"
| "do_add_to_precentages txts ch0 ch1 sz (m # ms) =
     (if ma_fname0 m = tx_fname (txts ! ch_text ch0) \<and> ma_fname1 m = tx_fname (txts ! ch_text ch1)
      then m\<lparr>ma_size := size_t_add (ma_size m) sz\<rparr> # ms
      else m # do_add_to_precentages txts ch0 ch1 sz ms)"

definition add_to_percentages ::
  "'f struct_text list \<Rightarrow> run \<Rightarrow> 'f match list \<Rightarrow> 'f match list"
where
  "add_to_percentages txts r ms =
     (if ch_text (rn_chunk0 r) = ch_text (rn_chunk1 r) then ms
      else do_add_to_precentages txts (rn_chunk1 r) (rn_chunk0 r) (rn_size r)
             (do_add_to_precentages txts (rn_chunk0 r) (rn_chunk1 r) (rn_size r) ms))"

subsection \<open>The percentage of a record\<close>

text \<open>
  \<open>match_percentage\<close> divides in \<open>float\<close>, and \<open>print_perc_info\<close> multiplies the
  quotient by the \<open>double\<close> 100.0 and converts to \<open>int\<close>. The arithmetic is taken as
  IEEE 754 binary32 and binary64 with rounding to nearest, ties to even, each
  operation rounded once; the values that occur are far from the ends of the exponent
  range, which is not modelled. \<open>fl p x\<close> is the number with \<open>p\<close> significant bits
  nearest to \<open>x\<close>.
\<close>

definition round_half_even :: "real \<Rightarrow> int" where
  "round_half_even x =
     (if x - of_int \<lfloor>x\<rfloor> < 1 / 2 then \<lfloor>x\<rfloor>
      else if 1 / 2 < x - of_int \<lfloor>x\<rfloor> then \<lfloor>x\<rfloor> + 1
      else if even \<lfloor>x\<rfloor> then \<lfloor>x\<rfloor> else \<lfloor>x\<rfloor> + 1)"

text \<open>
  The exponent of the binade of a positive number, that is the floor of its binary
  logarithm: the number of halvings that bring it below 2, or minus the number of
  doublings that bring it up to 1.
\<close>

function halvings :: "real \<Rightarrow> nat" where
  "halvings x = (if x < 2 then 0 else Suc (halvings (x / 2)))"
  by pat_completeness auto
termination
proof (relation "measure (\<lambda>x. nat \<lfloor>x\<rfloor>)")
  show "wf (measure (\<lambda>x :: real. nat \<lfloor>x\<rfloor>))" by simp
next
  fix x :: real assume "\<not> x < 2"
  then have "x / 2 \<le> x - 1" by simp
  then have "\<lfloor>x / 2\<rfloor> \<le> \<lfloor>x - 1\<rfloor>" by (rule floor_mono)
  moreover have "0 < \<lfloor>x\<rfloor>" using \<open>\<not> x < 2\<close> by simp
  ultimately show "(x / 2, x) \<in> measure (\<lambda>x. nat \<lfloor>x\<rfloor>)" by simp
qed

declare halvings.simps [simp del]

function doublings :: "real \<Rightarrow> nat" where
  "doublings x = (if x \<le> 0 \<or> 1 \<le> x then 0 else Suc (doublings (2 * x)))"
  by pat_completeness auto
termination
proof (relation "measure (\<lambda>x. nat \<lfloor>1 / x\<rfloor>)")
  show "wf (measure (\<lambda>x :: real. nat \<lfloor>1 / x\<rfloor>))" by simp
next
  fix x :: real assume "\<not> (x \<le> 0 \<or> 1 \<le> x)"
  then have x: "0 < x" "x < 1" by auto
  then have y: "1 < 1 / x" by simp
  then have f: "1 \<le> \<lfloor>1 / x\<rfloor>" by simp
  have "1 / (2 * x) < of_int \<lfloor>1 / x\<rfloor>"
  proof (cases "2 \<le> 1 / x")
    case True
    then have "1 / (2 * x) \<le> 1 / x - 1" by simp
    also have "\<dots> < of_int \<lfloor>1 / x\<rfloor>" by linarith
    finally show ?thesis .
  next
    case False
    then have "1 / (2 * x) < 1" by simp
    also have "\<dots> \<le> of_int \<lfloor>1 / x\<rfloor>" using f by simp
    finally show ?thesis .
  qed
  then have "\<lfloor>1 / (2 * x)\<rfloor> < \<lfloor>1 / x\<rfloor>" by (simp add: floor_less_iff)
  then show "(2 * x, x) \<in> measure (\<lambda>x. nat \<lfloor>1 / x\<rfloor>)" using f by simp
qed

declare doublings.simps [simp del]

definition binade :: "real \<Rightarrow> int" where
  "binade x = (if 1 \<le> x then int (halvings x) else - int (doublings x))"

definition pow2 :: "int \<Rightarrow> real" where
  "pow2 k = (if 0 \<le> k then 2 ^ nat k else 1 / 2 ^ nat (- k))"

definition fl :: "nat \<Rightarrow> real \<Rightarrow> real" where
  "fl p x =
     (if x = 0 then 0
      else if x < 0 then
        - (of_int (round_half_even (- x / pow2 (binade (- x) - int p + 1)))
             * pow2 (binade (- x) - int p + 1))
      else of_int (round_half_even (x / pow2 (binade x - int p + 1)))
             * pow2 (binade x - int p + 1))"

text \<open>
  \<open>(int)(match_percentage(m)*100.0)\<close>. A division by zero, and a product that does not
  fit an \<open>int\<close>, have no defined result.
\<close>

definition match_percent :: "'f match \<Rightarrow> int option" where
  "match_percent m =
     (if ma_size0 m = 0 then None
      else
        let q = fl 24 (fl 24 (of_nat (ma_size m)) / fl 24 (of_nat (ma_size0 m)));
            d = fl 53 (q * 100)
        in if \<lfloor>d\<rfloor> < 2 ^ 31 then Some \<lfloor>d\<rfloor> else None)"

subsection \<open>Printing\<close>

text \<open>The output line \<open>"%s consists for %d %% of %s material\n"\<close>.\<close>

datatype 'f perc_line = Perc_Line 'f int 'f

definition print_perc_info :: "int \<Rightarrow> 'f match \<Rightarrow> 'f perc_line list option" where
  "print_perc_info Threshold_Percentage m =
     (case match_percent m of
        None \<Rightarrow> None
      | Some mp0 \<Rightarrow>
          let mp = (if mp0 > 100 then 100 else mp0)
          in Some (if mp \<ge> Threshold_Percentage
                   then [Perc_Line (ma_fname0 m) mp (ma_fname1 m)]
                   else []))"

text \<open>
  The \<open>while\<close> loop of \<open>print_and_remove_perc_info_for_top_file\<close> over the rest of the
  list: it returns the lines printed and the list that remains. \<open>opt_P\<close> is
  \<open>is_set_option('P')\<close>.
\<close>

fun remove_contributors ::
  "bool \<Rightarrow> int \<Rightarrow> 'f \<Rightarrow> 'f match list \<Rightarrow> ('f perc_line list \<times> 'f match list) option"
where
  "remove_contributors opt_P thr fname [] = Some ([], [])"
| "remove_contributors opt_P thr fname (m # ms) =
     (if ma_fname0 m = fname
      then (case (if \<not> opt_P then print_perc_info thr m else Some []) of
              None \<Rightarrow> None
            | Some out \<Rightarrow>
                (case remove_contributors opt_P thr fname ms of
                   None \<Rightarrow> None
                 | Some (outs, rest) \<Rightarrow> Some (out @ outs, rest)))
      else (case remove_contributors opt_P thr fname ms of
              None \<Rightarrow> None
            | Some (outs, rest) \<Rightarrow> Some (outs, m # rest)))"

fun print_and_remove_perc_info_for_top_file ::
  "bool \<Rightarrow> int \<Rightarrow> 'f match list \<Rightarrow> ('f perc_line list \<times> 'f match list) option"
where
  "print_and_remove_perc_info_for_top_file opt_P thr [] = None"
| "print_and_remove_perc_info_for_top_file opt_P thr (m # ms) =
     (case print_perc_info thr m of
        None \<Rightarrow> None
      | Some out \<Rightarrow>
          (case remove_contributors opt_P thr (ma_fname0 m) ms of
             None \<Rightarrow> None
           | Some (outs, rest) \<Rightarrow> Some (out @ outs, rest)))"

lemma remove_contributors_length:
  "remove_contributors opt_P thr fname ms = Some (outs, rest) \<Longrightarrow> length rest \<le> length ms"
  by (induction ms arbitrary: outs rest) (auto split: if_splits option.splits)

lemma print_and_remove_length:
  "print_and_remove_perc_info_for_top_file opt_P thr ms = Some (outs, rest)
     \<Longrightarrow> length rest < length ms"
  by (cases ms) (auto split: option.splits dest: remove_contributors_length)

function print_percentages :: "bool \<Rightarrow> int \<Rightarrow> 'f match list \<Rightarrow> 'f perc_line list option" where
  "print_percentages opt_P thr ms =
     (if ms = [] then Some []
      else (case print_and_remove_perc_info_for_top_file opt_P thr ms of
              None \<Rightarrow> None
            | Some (outs, rest) \<Rightarrow>
                (case print_percentages opt_P thr rest of
                   None \<Rightarrow> None
                 | Some more_outs \<Rightarrow> Some (outs @ more_outs))))"
  by pat_completeness auto
termination
  by (relation "measure (\<lambda>(opt_P, thr, ms). length ms)")
     (auto dest: print_and_remove_length)

declare print_percentages.simps [simp del]

subsection \<open>Vocabulary for the properties\<close>

text \<open>
  The key of a record is its pair of file names. \<open>new_match\<close> is the record that
  \<open>do_add_to_precentages\<close> appends for a pair of texts that has none yet, and
  \<open>add_size k sz\<close> adds \<open>sz\<close> to the record with key \<open>k\<close>, leaving every other
  record and every other field as it is.
\<close>
definition match_key :: "'f match \<Rightarrow> 'f \<times> 'f" where
  "match_key m = (ma_fname0 m, ma_fname1 m)"

definition new_match :: "'f struct_text list \<Rightarrow> nat \<Rightarrow> nat \<Rightarrow> nat \<Rightarrow> 'f match" where
  "new_match txts a b sz =
     \<lparr>ma_fname0 = tx_fname (txts ! a), ma_fname1 = tx_fname (txts ! b), ma_size = sz,
      ma_size0 = size_t_sub (tx_limit (txts ! a)) (tx_start (txts ! a))\<rparr>"

definition add_size :: "'f \<times> 'f \<Rightarrow> nat \<Rightarrow> 'f match \<Rightarrow> 'f match" where
  "add_size k sz m = (if match_key m = k then m\<lparr>ma_size := size_t_add (ma_size m) sz\<rparr> else m)"

text \<open>
  \<open>reports thr ms l\<close>: the line \<open>l\<close> belongs to a record of \<open>ms\<close>, shows the
  percentage of that record capped at 100, and that value is at least \<open>thr\<close>.
\<close>

definition reports :: "int \<Rightarrow> 'f match list \<Rightarrow> 'f perc_line \<Rightarrow> bool" where
  "reports thr ms l =
     (\<exists>m \<in> set ms. \<exists>mp0. match_percent m = Some mp0 \<and>
        l = Perc_Line (ma_fname0 m) (min 100 mp0) (ma_fname1 m) \<and>
        min 100 mp0 \<le> 100 \<and> thr \<le> min 100 mp0)"

section \<open>sim.c: the command line\<close>

text \<open>
  \<open>atoi\<close> of the C library, which is \<open>(int) strtol(nptr, NULL, 10)\<close>: white space is
  skipped, an optional sign is read, then decimal digits up to the first character
  that is not a digit. \<open>strtol\<close> returns a \<open>long\<close>, taken as 64 bits wide, and a value
  outside its range comes back as \<open>LONG_MAX\<close> or \<open>LONG_MIN\<close>; the conversion to \<open>int\<close>
  keeps the low 32 bits.
\<close>

definition isspace :: "char \<Rightarrow> bool" where
  "isspace c = (c \<in> {CHR '' '', CHR 0x09, CHR 0x0A, CHR 0x0B, CHR 0x0C, CHR 0x0D})"

definition isdigit :: "char \<Rightarrow> bool" where
  "isdigit c = (48 \<le> (of_char c :: nat) \<and> (of_char c :: nat) \<le> 57)"

fun atoi_digits :: "int \<Rightarrow> string \<Rightarrow> int" where
  "atoi_digits acc [] = acc"
| "atoi_digits acc (c # cs) =
     (if isdigit c then atoi_digits (10 * acc + (of_char c - 48)) cs else acc)"

definition LONG_MAX :: int where
  "LONG_MAX = 2 ^ 63 - 1"

definition LONG_MIN :: int where
  "LONG_MIN = - (2 ^ 63)"

definition strtol :: "string \<Rightarrow> int" where
  "strtol s =
     (case dropWhile isspace s of
        [] \<Rightarrow> 0
      | c # cs \<Rightarrow>
          if c = CHR ''-'' then max LONG_MIN (- atoi_digits 0 cs)
          else if c = CHR ''+'' then min LONG_MAX (atoi_digits 0 cs)
          else min LONG_MAX (atoi_digits 0 (c # cs)))"

definition atoi :: "string \<Rightarrow> int" where
  "atoi s = int_wrap (strtol s)"

text \<open>
  What \<open>do_options\<close> (options.c, not among the sources) leaves behind: the set of
  option letters given (\<open>is_set_option\<close>), the strings of the value options (absent
  when the option was not given), and the number of file arguments. \<open>fopen_succeeds\<close>
  says whether the output file can be opened.
\<close>

record command_line =
  options_set :: "char set"
  min_run_string :: "string option"
  page_width_string :: "string option"
  threshold_string :: "string option"
  output_name :: "string option"
  fopen_succeeds :: bool
  n_file_args :: nat

text \<open>The parameters with which \<open>main\<close> enters the part "Here the real work starts".\<close>

record parameters =
  par_Min_Run_Size :: int
  par_Page_Width :: int
  par_Threshold_Percentage :: int
  par_options :: "char set"

datatype main_result =
    Fatal_Exit string
  | Version_Exit
  | Real_Work parameters

fun incompatible_with :: "char set \<Rightarrow> char \<Rightarrow> string \<Rightarrow> string option" where
  "incompatible_with opts first [] = None"
| "incompatible_with opts first (second # others) =
     (if first \<in> opts \<and> second \<in> opts
      then Some (''options -'' @ [first] @ '' and -'' @ [second] @ '' are incompatible'')
      else incompatible_with opts first others)"

text \<open>\<open>allow_at_most_one_out_of\<close> returns the message of its \<open>fatal\<close> call, if it makes one.\<close>

fun allow_at_most_one_out_of :: "char set \<Rightarrow> string \<Rightarrow> string option" where
  "allow_at_most_one_out_of opts [] = None"
| "allow_at_most_one_out_of opts (first # rest) =
     (case incompatible_with opts first rest of
        Some msg \<Rightarrow> Some msg
      | None \<Rightarrow> allow_at_most_one_out_of opts rest)"

text \<open>
  \<open>main\<close> from the compatibility checks up to the start of the real work.
  \<open>DEFAULT_MIN_RUN_SIZE\<close> and \<open>DEFAULT_PAGE_WIDTH\<close> come from settings.par, which is
  not among the sources, and are parameters.
\<close>

definition main_options :: "int \<Rightarrow> int \<Rightarrow> command_line \<Rightarrow> main_result" where
  "main_options DEFAULT_MIN_RUN_SIZE DEFAULT_PAGE_WIDTH cl =
     (case allow_at_most_one_out_of (options_set cl) ''dnpPT'' of
        Some msg \<Rightarrow> Fatal_Exit msg
      | None \<Rightarrow>
     if CHR ''t'' \<in> options_set cl \<and> CHR ''p'' \<notin> options_set cl \<and> CHR ''P'' \<notin> options_set cl
     then Fatal_Exit ''option -t requires -p or -P''
     else if CHR ''v'' \<in> options_set cl then Version_Exit
     else
       let opts1 = (if CHR ''P'' \<in> options_set cl then insert (CHR ''p'') (options_set cl)
                    else options_set cl);
           opts2 = (if CHR ''p'' \<in> opts1 then insert (CHR ''s'') (insert (CHR ''e'') opts1)
                    else opts1);
           mrs = (case min_run_string cl of None \<Rightarrow> DEFAULT_MIN_RUN_SIZE | Some str \<Rightarrow> atoi str);
           pw = (case page_width_string cl of None \<Rightarrow> DEFAULT_PAGE_WIDTH | Some str \<Rightarrow> atoi str);
           thr = (case threshold_string cl of None \<Rightarrow> 1 | Some str \<Rightarrow> atoi str)
       in
       if min_run_string cl \<noteq> None \<and> mrs = 0
       then Fatal_Exit ''bad or zero run size; form is: -r N''
       else if page_width_string cl \<noteq> None \<and> pw \<le> 0
       then Fatal_Exit ''bad or zero page width''
       else if threshold_string cl \<noteq> None \<and> (thr > 100 \<or> thr \<le> 0)
       then Fatal_Exit ''threshold must be between 1 and 100''
       else if output_name cl \<noteq> None \<and> \<not> fopen_succeeds cl
       then Fatal_Exit (''cannot open output file '' @ [CHR 0x60] @ the (output_name cl) @ [CHR 0x27])
       else if CHR ''i'' \<in> opts2 \<and> n_file_args cl \<noteq> 0
       then Fatal_Exit ''-i option conflicts with file arguments''
       else Real_Work \<lparr>par_Min_Run_Size = mrs, par_Page_Width = pw,
                        par_Threshold_Percentage = thr, par_options = opts2\<rparr>)"

section \<open>Properties of hash.c\<close>

subsection \<open>The query\<close>

text \<open>
  Claim C10. The query \<open>Forward_Reference(i)\<close> is fatal for \<open>i = 0\<close> as well as for
  every \<open>i\<close> at or beyond \<open>n_forward_references\<close> (which \<open>Make_Forward_References\<close>
  sets to the length of the array); for every \<open>i\<close> with \<open>1 \<le> i < n_forward_references\<close>
  it returns the entry \<open>forward_reference[i]\<close> and does not fail.
\<close>

theorem Forward_Reference_sentinel_fatal:
  "(i = 0 \<or> n_forward_references st \<le> i \<longrightarrow>
      Forward_Reference st i = Fatal ''internal error, bad forward reference'') \<and>
   (1 \<le> i \<and> i < n_forward_references st \<longrightarrow>
      Forward_Reference st i = Returns (forward_reference st ! i))"
  by (simp add: Forward_Reference_def)

theorem Forward_Reference_sentinel_fatal_witness:
  "Forward_Reference
      \<lparr>forward_reference = [0, 2, 0], n_forward_references = 3,
       last_index_table_size = 14051, sample_pos = []\<rparr> 0
     = Fatal ''internal error, bad forward reference'' \<and>
   Forward_Reference
      \<lparr>forward_reference = [0, 2, 0], n_forward_references = 3,
       last_index_table_size = 14051, sample_pos = []\<rparr> 3
     = Fatal ''internal error, bad forward reference'' \<and>
   Forward_Reference
      \<lparr>forward_reference = [0, 2, 0], n_forward_references = 3,
       last_index_table_size = 14051, sample_pos = []\<rparr> 1
     = Returns 2"
  using Forward_Reference_sentinel_fatal
      [of 0 "\<lparr>forward_reference = [0, 2, 0], n_forward_references = 3,
               last_index_table_size = 14051, sample_pos = []\<rparr>"]
    Forward_Reference_sentinel_fatal
      [of 3 "\<lparr>forward_reference = [0, 2, 0], n_forward_references = 3,
               last_index_table_size = 14051, sample_pos = []\<rparr>"]
    Forward_Reference_sentinel_fatal
      [of 1 "\<lparr>forward_reference = [0, 2, 0], n_forward_references = 3,
               last_index_table_size = 14051, sample_pos = []\<rparr>"]
  by simp

subsection \<open>Sample positions\<close>

lemma int_wrap_id: "- (2 ^ 31) \<le> i \<Longrightarrow> i < 2 ^ 31 \<Longrightarrow> int_wrap i = i"
  unfolding int_wrap_def
  by (simp add: sint_sbintrunc' signed_take_bit_int_eq_self)

lemma sample_pos_entry_exact:
  assumes "1 \<le> mrs" "mrs \<le> 46684427" "n < N_SAMPLES"
  shows "sample_pos_entry mrs n = nat ((2 * int n * (mrs - 1) + 23) div 46)"
proof -
  have n: "int n \<le> 23" using assms(3) by (simp add: N_SAMPLES_def)
  have a: "c_mul 2 (int n) = 2 * int n"
    unfolding c_mul_def using n by (intro int_wrap_id) auto
  have b: "c_sub mrs 1 = mrs - 1"
    unfolding c_sub_def using assms by (intro int_wrap_id) auto
  have "2 * int n * (mrs - 1) \<le> 46 * 46684426"
    using n assms by (intro mult_mono) auto
  then have le: "2 * int n * (mrs - 1) \<le> 2147483596" by simp
  have ge: "0 \<le> 2 * int n * (mrs - 1)" using assms by simp
  have c: "c_mul (2 * int n) (mrs - 1) = 2 * int n * (mrs - 1)"
    unfolding c_mul_def using le ge by (intro int_wrap_id) auto
  have d: "c_sub (int N_SAMPLES) 1 = 23"
    unfolding c_sub_def N_SAMPLES_def by (simp add: int_wrap_id)
  have e: "c_add (2 * int n * (mrs - 1)) 23 = 2 * int n * (mrs - 1) + 23"
    unfolding c_add_def using le ge by (intro int_wrap_id) auto
  have f: "c_mul 2 23 = 46"
    unfolding c_mul_def by (simp add: int_wrap_id)
  have g0: "0 \<le> (2 * int n * (mrs - 1) + 23) div 46" using ge by simp
  have g1: "(2 * int n * (mrs - 1) + 23) div 46 \<le> 2147483619 div 46"
    using le by (intro zdiv_mono1) auto
  have sd: "(2 * int n * (mrs - 1) + 23) sdiv 46 = (2 * int n * (mrs - 1) + 23) div 46"
    using ge by (simp add: signed_divide_int_def sgn_if)
  have g: "c_div (2 * int n * (mrs - 1) + 23) 46 = (2 * int n * (mrs - 1) + 23) div 46"
    unfolding c_div_def sd using g0 g1 by (intro int_wrap_id) auto
  have h: "size_t_of_int ((2 * int n * (mrs - 1) + 23) div 46)
             = nat ((2 * int n * (mrs - 1) + 23) div 46)"
    unfolding size_t_of_int_def using g0 g1 by (simp add: nat_mod_distrib)
  show ?thesis
    unfolding sample_pos_entry_def a b c d e f g h ..
qed

lemma sample_pos_entry_window:
  assumes "1 \<le> mrs" "mrs \<le> 46684427" "n < N_SAMPLES"
  shows "int (sample_pos_entry mrs n) < mrs"
proof -
  have n: "int n \<le> 23" using assms(3) by (simp add: N_SAMPLES_def)
  have "2 * int n * (mrs - 1) \<le> 46 * (mrs - 1)"
    using n assms by (intro mult_right_mono) auto
  then have "(2 * int n * (mrs - 1) + 23) div 46 \<le> (46 * (mrs - 1) + 23) div 46"
    by (intro zdiv_mono1) auto
  also have "\<dots> = mrs - 1" by simp
  finally have up: "(2 * int n * (mrs - 1) + 23) div 46 < mrs" by simp
  have "0 \<le> 2 * int n * (mrs - 1)" using assms by simp
  then have "0 \<le> (2 * int n * (mrs - 1) + 23) div 46" by simp
  with up show ?thesis
    using sample_pos_entry_exact[OF assms] by simp
qed

lemma length_find_sample_positions: "length (find_sample_positions mrs) = N_SAMPLES"
  by (simp add: find_sample_positions_def)

lemma nth_find_sample_positions:
  "n < N_SAMPLES \<Longrightarrow> find_sample_positions mrs ! n = sample_pos_entry mrs n"
  by (simp add: find_sample_positions_def)

lemma find_sample_positions_window:
  assumes "1 \<le> mrs" "mrs \<le> 46684427"
  shows "\<forall>s \<in> set (find_sample_positions mrs). s < nat mrs"
proof
  fix s assume "s \<in> set (find_sample_positions mrs)"
  then obtain n where "n < N_SAMPLES" "s = sample_pos_entry mrs n"
    by (auto simp: find_sample_positions_def)
  then show "s < nat mrs"
    using sample_pos_entry_window[OF assms, of n] by simp
qed




lemma ideal_size_small: "len \<le> 14051 \<Longrightarrow> ideal_size len 0 = Some 0"
  by (subst ideal_size.simps) (simp add: prime_def)

lemma find_sample_positions_2:
  "find_sample_positions 2 = [0,0,0,0,0,0,0,0,0,0,0,0,1,1,1,1,1,1,1,1,1,1,1,1]"
  by (simp add: find_sample_positions_def N_SAMPLES_def sample_pos_entry_def upt_rec
        c_add_def c_sub_def c_mul_def c_div_def int_wrap_def size_t_of_int_def
        signed_divide_int_def)



subsection \<open>The primary hash\<close>

lemma and_top_iff: "(w AND push_bit (HASH_W - 1) 1 \<noteq> 0) = bit (w :: 32 word) 31"
  by (simp add: HASH_W_def bit_iff_and_push_bit_not_eq_0)

lemma hash1_shift_top: "\<not> bit (hash1_shift h) 31"
  unfolding hash1_shift_def and_top_iff
  by (auto simp: bit_simps HASH_W_def)

lemma token_word_top:
  assumes "0 \<le> t" "t < 2 ^ 31"
  shows "\<not> bit (word_of_int t :: 32 word) 31"
  using assms by (simp add: bit_word_of_int_iff bit_int_def)

lemma unat_top: "\<not> bit (w :: 32 word) 31 \<Longrightarrow> unat w < 2 ^ 31"
proof -
  assume a: "\<not> bit w 31"
  have "take_bit 31 w = w"
  proof (rule bit_word_eqI)
    fix n assume "n < LENGTH(32)"
    then show "bit (take_bit 31 w) n = bit w n"
      using a by (cases "n = 31") (auto simp: bit_simps)
  qed
  then have "unat w = unat (take_bit 31 w)" by simp
  also have "\<dots> = take_bit 31 (unat w)" by (rule unsigned_take_bit_eq)
  also have "\<dots> = unat w mod 2 ^ 31" by (rule take_bit_eq_mod)
  also have "\<dots> < 2 ^ 31" by simp
  finally show ?thesis .
qed

lemma hash1_loop_top:
  assumes "\<forall>tk \<in> set (Token_Array g). 0 \<le> Token2int g tk \<and> Token2int g tk < 2 ^ (HASH_W - 1)"
  shows "hash1_loop g p ss h = Some w \<Longrightarrow> \<not> bit h 31 \<Longrightarrow> \<not> bit w 31"
proof (induction ss arbitrary: h)
  case Nil
  then show ?case by simp
next
  case (Cons s ss)
  from Cons.prems(1) obtain tk where tk: "Token_at g (p + s) = Some tk"
    and rest: "hash1_loop g p ss (hash1_shift h XOR word_of_int (Token2int g tk)) = Some w"
    by (auto split: option.splits)
  from tk have "tk \<in> set (Token_Array g)"
    by (auto simp: Token_at_def split: if_splits)
  with assms have "0 \<le> Token2int g tk" "Token2int g tk < 2 ^ 31"
    by (auto simp: HASH_W_def)
  then have "\<not> bit (word_of_int (Token2int g tk) :: 32 word) 31"
    by (rule token_word_top)
  then have "\<not> bit (hash1_shift h XOR word_of_int (Token2int g tk)) 31"
    using hash1_shift_top[of h] by (simp add: bit_xor_iff)
  with Cons.IH[OF rest] show ?case .
qed

lemma hash1_loop_defined:
  assumes "\<forall>s \<in> set ss. p + s < length (Token_Array g)"
  shows "\<exists>w. hash1_loop g p ss h = Some w"
  using assms by (induction ss arbitrary: h) (auto simp: Token_at_def)

lemma sample_list:
  "map ((!) (find_sample_positions mrs)) [0..<N_SAMPLES] = find_sample_positions mrs"
  using map_nth[of "find_sample_positions mrs"] by (simp add: length_find_sample_positions)

lemma hash1_defined:
  assumes "1 \<le> Min_Run_Size g" "Min_Run_Size g \<le> 46684427"
    and "p + nat (Min_Run_Size g) \<le> Token_Array_Length g"
  shows "\<exists>h. hash1 g (find_sample_positions (Min_Run_Size g)) p = Some h"
proof -
  have "\<forall>s \<in> set (find_sample_positions (Min_Run_Size g)). p + s < length (Token_Array g)"
    using find_sample_positions_window[OF assms(1,2)] assms(3)
    by (auto simp: Token_Array_Length_def)
  from hash1_loop_defined[OF this] show ?thesis
    by (auto simp: hash1_def sample_list)
qed

text \<open>
  Claim C7. Let every token of the array convert (\<open>Token2int\<close>) to a non-negative
  \<open>int\<close> below \<open>2^31\<close>. Then every value that \<open>hash1\<close> returns has bit \<open>HASH_W - 1\<close>
  clear, that is, it is below \<open>2^31\<close>; and when at least \<open>Min_Run_Size\<close> tokens
  start at \<open>p\<close>, \<open>hash1\<close> does return a value there.
\<close>

theorem hash1_top_bit_clear:
  assumes "\<forall>tk \<in> set (Token_Array g). 0 \<le> Token2int g tk \<and> Token2int g tk < 2 ^ (HASH_W - 1)"
  shows "(\<forall>sp h. hash1 g sp p = Some h \<longrightarrow> h < 2 ^ (HASH_W - 1)) \<and>
         (1 \<le> Min_Run_Size g \<and> Min_Run_Size g \<le> 46684427 \<and>
          p + nat (Min_Run_Size g) \<le> Token_Array_Length g
            \<longrightarrow> (\<exists>h. hash1 g (find_sample_positions (Min_Run_Size g)) p = Some h))"
proof (intro conjI allI impI)
  fix sp h assume "hash1 g sp p = Some h"
  then obtain w where w: "hash1_loop g p (map ((!) sp) [0..<N_SAMPLES]) 0 = Some w"
    and h: "h = unat w"
    by (auto simp: hash1_def)
  have "\<not> bit w 31"
    by (rule hash1_loop_top[OF assms w]) simp
  then have "unat w < 2 ^ 31"
    by (rule unat_top)
  then show "h < 2 ^ (HASH_W - 1)"
    unfolding h by (simp add: HASH_W_def)
next
  assume "1 \<le> Min_Run_Size g \<and> Min_Run_Size g \<le> 46684427 \<and>
          p + nat (Min_Run_Size g) \<le> Token_Array_Length g"
  then show "\<exists>h. hash1 g (find_sample_positions (Min_Run_Size g)) p = Some h"
    by (intro hash1_defined) auto
qed

theorem hash1_top_bit_clear_witness:
  "hash1
     \<lparr>Token2int = int, May_Be_Start_Of_Run = (\<lambda>_. True), Token_Array = [0 :: nat, 7, 7, 7, 7],
      Text = ([] :: string struct_text list), Min_Run_Size = 2, TryCalloc = (\<lambda>_. True)\<rparr>
     (find_sample_positions 2) 1 = Some 50331645 \<and>
   (50331645 :: nat) < 2 ^ (HASH_W - 1)"
proof -
  have e: "hash1
     \<lparr>Token2int = int, May_Be_Start_Of_Run = (\<lambda>_. True), Token_Array = [0 :: nat, 7, 7, 7, 7],
      Text = ([] :: string struct_text list), Min_Run_Size = 2, TryCalloc = (\<lambda>_. True)\<rparr>
     (find_sample_positions 2) 1 = Some 50331645"
    by (simp add: find_sample_positions_2 hash1_def N_SAMPLES_def upt_rec Token_at_def
        hash1_shift_def HASH_W_def)
  have "\<forall>tk \<in> set [0 :: nat, 7, 7, 7, 7]. 0 \<le> int tk \<and> int tk < 2 ^ (HASH_W - 1)"
    by (simp add: HASH_W_def)
  then show ?thesis
    using e hash1_top_bit_clear
      [of "\<lparr>Token2int = int, May_Be_Start_Of_Run = (\<lambda>_. True), Token_Array = [0 :: nat, 7, 7, 7, 7],
        Text = ([] :: string struct_text list), Min_Run_Size = 2, TryCalloc = (\<lambda>_. True)\<rparr>" 1]
    by auto
qed

subsection \<open>The two sweeps\<close>

lemma size_t_sub_eq: "b \<le> a \<Longrightarrow> a < 2 ^ 64 \<Longrightarrow> size_t_sub a b = a - b"
  by (simp add: size_t_sub_def nat_mod_distrib flip: of_nat_diff)

lemma prime_pos: "p \<in> set prime \<Longrightarrow> 0 < p"
  by (auto simp: prime_def)

lemma length_prime: "length prime = 27"
  by (simp add: prime_def)

lemma last_prime: "prime ! 26 = 943899731087"
  by (simp add: prime_def)

lemma ideal_size_spec:
  "len \<le> 943899731087 \<Longrightarrow> n0 \<le> length prime \<Longrightarrow> \<forall>i < n0. prime ! i < len
    \<Longrightarrow> \<exists>n. ideal_size len n0 = Some n \<and> n < length prime \<and> (\<forall>i < n. prime ! i < len)
             \<and> len \<le> prime ! n"
proof (induction len n0 rule: ideal_size.induct)
  case (1 len n)
  show ?case
  proof (cases "n < length prime")
    case False
    with "1.prems" have "n = 27" by (simp add: length_prime)
    with "1.prems" have "prime ! 26 < len" by simp
    with "1.prems"(1) have False by (simp add: last_prime)
    then show ?thesis ..
  next
    case True
    show ?thesis
    proof (cases "prime ! n < len")
      case False
      with True "1.prems" show ?thesis
        by (subst ideal_size.simps) auto
    next
      case lt: True
      have "\<forall>i < n + 1. prime ! i < len"
        using lt "1.prems"(3) by (auto simp: less_Suc_eq)
      with "1.IH"[OF True lt "1.prems"(1)] True
      obtain n' where "ideal_size len (n + 1) = Some n'" "n' < length prime"
        "\<forall>i < n'. prime ! i < len" "len \<le> prime ! n'"
        by auto
      with True lt show ?thesis
        by (subst ideal_size.simps) auto
    qed
  qed
qed

lemma step_down_spec:
  "k \<le> n \<Longrightarrow> alloc (prime ! k) \<Longrightarrow> \<exists>k' \<le> n. step_down alloc n = Some (prime ! k')"
proof (induction n)
  case 0
  then show ?case by auto
next
  case (Suc n)
  show ?case
  proof (cases "alloc (prime ! Suc n)")
    case True
    then show ?thesis by auto
  next
    case False
    with Suc.prems have "k \<le> n" by (cases "k = Suc n") auto
    from Suc.IH[OF this Suc.prems(2)] False show ?thesis
      by (auto intro: le_SucI)
  qed
qed

lemma init_hash_table_returns:
  assumes "valid_input g"
  shows "\<exists>M. init_hash_table g = Some (Returns (M, find_sample_positions (Min_Run_Size g))) \<and> 0 < M"
proof -
  from assms obtain k where k: "k < length prime" "\<forall>i < k. prime ! i < Token_Array_Length g"
    "TryCalloc g (prime ! k)" and len: "Token_Array_Length g \<le> 943899731087"
    by (auto simp: valid_input_def)
  from ideal_size_spec[OF len, of 0] obtain n where
    n: "ideal_size (Token_Array_Length g) 0 = Some n" "n < length prime"
       "Token_Array_Length g \<le> prime ! n"
    by auto
  have "k \<le> n"
  proof (rule ccontr)
    assume "\<not> k \<le> n"
    then have "prime ! n < Token_Array_Length g" using k(2) by simp
    with n(3) show False by simp
  qed
  from step_down_spec[of k n "TryCalloc g", OF this k(3)] obtain k' where
    k': "k' \<le> n" "step_down (TryCalloc g) n = Some (prime ! k')"
    by auto
  have "0 < prime ! k'"
    using k'(1) n(2) by (intro prime_pos) simp
  with n(1) k'(2) show ?thesis
    by (simp add: init_hash_table_def)
qed

lemma inv1_init: "inv1 N M b {} (replicate N 0, replicate M 0)"
  by (simp add: inv1_def link1_def latest_def)

lemma latest_insert:
  assumes "latest b J h v" "\<forall>q \<in> J. q < j" 
  shows "latest b (insert j J) h (if b j = h then j else v)"
  using assms unfolding latest_def by (auto simp: less_imp_le)

lemma link1_insert_other:
  assumes v: "link1 b J p v" and lt: "\<forall>q \<in> J. q < j" and pj: "p \<noteq> j"
    and nl: "\<not> (p \<in> J \<and> b p = b j \<and> (\<forall>r \<in> J. b r = b j \<longrightarrow> r \<le> p))"
  shows "link1 b (insert j J) p v"
proof (cases "p \<in> J \<and> (\<exists>q \<in> J. p < q \<and> b q = b p)")
  case True
  with v have 1: "v \<in> J" "p < v" "b v = b p" "\<forall>r \<in> J. p < r \<and> b r = b p \<longrightarrow> v \<le> r"
    by (auto simp: link1_def)
  from 1(1) lt have "v \<le> j" by (auto simp: less_imp_le)
  with 1 True show ?thesis
    unfolding link1_def by auto
next
  case False
  with v have v0: "v = 0" by (auto simp: link1_def)
  have "\<not> (p \<in> insert j J \<and> (\<exists>q \<in> insert j J. p < q \<and> b q = b p))"
  proof
    assume a: "p \<in> insert j J \<and> (\<exists>q \<in> insert j J. p < q \<and> b q = b p)"
    with pj have pJ: "p \<in> J" by simp
    from a False pJ have bj: "b j = b p" "p < j" by auto
    with nl pJ obtain r where "r \<in> J" "b r = b j" "\<not> r \<le> p" by auto
    with False pJ bj show False by auto
  qed
  with v0 show ?thesis
    unfolding link1_def by simp
qed

lemma link1_insert_last:
  assumes "p \<in> J" "b p = b j" "\<forall>r \<in> J. b r = b j \<longrightarrow> r \<le> p" "\<forall>q \<in> J. q < j"
  shows "link1 b (insert j J) p j"
  using assms unfolding link1_def by auto

lemma link1_insert_new:
  assumes "\<forall>q \<in> J. q < j"
  shows "link1 b (insert j J) j 0"
  using assms unfolding link1_def by auto

lemma step1_inv1:
  assumes inv: "inv1 N M b J s" and j: "j < N" "0 < j" and lt: "\<forall>q \<in> J. q < j"
    and pos: "0 \<notin> J" and bj: "b j < M" and sub: "\<forall>q \<in> J. q < N"
  shows "inv1 N M b (insert j J) (step1 b j s)"
proof -
  obtain fr li where s: "s = (fr, li)" by (cases s)
  from inv have len: "length fr = N" "length li = M"
    and L: "\<forall>p < N. link1 b J p (fr ! p)" and T: "\<forall>h < M. latest b J h (li ! h)"
    by (auto simp: inv1_def s)
  let ?l = "li ! b j"
  from T bj have lat: "latest b J (b j) ?l" by simp
  let ?fr' = "if ?l \<noteq> 0 then fr[?l := j] else fr"
  have st: "step1 b j s = (?fr', li[b j := j])"
    by (simp add: step1_def s)
  have "\<forall>h < M. latest b (insert j J) h (li[b j := j] ! h)"
  proof (intro allI impI)
    fix h assume h: "h < M"
    from latest_insert[OF T[rule_format, OF h] lt]
    show "latest b (insert j J) h (li[b j := j] ! h)"
      using h len bj by (auto simp: nth_list_update)
  qed
  moreover have "\<forall>p < N. link1 b (insert j J) p (?fr' ! p)"
  proof (intro allI impI)
    fix p assume p: "p < N"
    show "link1 b (insert j J) p (?fr' ! p)"
    proof (cases "\<exists>q \<in> J. b q = b j")
      case True
      with lat have l: "?l \<in> J" "b ?l = b j" "\<forall>r \<in> J. b r = b j \<longrightarrow> r \<le> ?l"
        by (auto simp: latest_def)
      with pos have l0: "?l \<noteq> 0" by (metis)
      from l sub have lN: "?l < N" by auto
      show ?thesis
      proof (cases "p = ?l")
        case True
        then have "?fr' ! p = j" using l0 lN len by simp
        moreover have "link1 b (insert j J) ?l j"
          using l lt by (intro link1_insert_last) auto
        ultimately show ?thesis using True by simp
      next
        case False
        then have e: "?fr' ! p = fr ! p" using l0 by simp
        show ?thesis
        proof (cases "p = j")
          case True
          with lt have "p \<notin> J" by auto
          with L p have "fr ! p = 0" by (auto simp: link1_def)
          with e True show ?thesis using link1_insert_new[OF lt, of b] by simp
        next
          case pj: False
          have "\<not> (p \<in> J \<and> b p = b j \<and> (\<forall>r \<in> J. b r = b j \<longrightarrow> r \<le> p))"
          proof
            assume a: "p \<in> J \<and> b p = b j \<and> (\<forall>r \<in> J. b r = b j \<longrightarrow> r \<le> p)"
            with l have "?l \<le> p" "p \<le> ?l" by auto
            with False show False by simp
          qed
          from link1_insert_other[OF L[rule_format, OF p] lt pj this] e
          show ?thesis by simp
        qed
      qed
    next
      case False
      with lat have l0: "?l = 0" by (auto simp: latest_def)
      then have e: "?fr' ! p = fr ! p" by simp
      show ?thesis
      proof (cases "p = j")
        case True
        with lt have "p \<notin> J" by auto
        with L p have "fr ! p = 0" by (auto simp: link1_def)
        with e True show ?thesis using link1_insert_new[OF lt, of b] by simp
      next
        case pj: False
        have "\<not> (p \<in> J \<and> b p = b j \<and> (\<forall>r \<in> J. b r = b j \<longrightarrow> r \<le> p))"
          using False by auto
        from link1_insert_other[OF L[rule_format, OF p] lt pj this] e
        show ?thesis by simp
      qed
    qed
  qed
  ultimately show ?thesis
    unfolding st inv1_def using len by simp
qed

lemma size_t_of_int_nat: "0 \<le> i \<Longrightarrow> i < 2 ^ 64 \<Longrightarrow> size_t_of_int i = nat i"
  by (simp add: size_t_of_int_def)

lemma loop_cond:
  assumes "1 \<le> mrs" "mrs \<le> 46684427" "j \<le> 943899731087"
  shows "(size_t_sub (size_t_add j (size_t_of_int mrs)) 1 < lmt) = (j + nat mrs \<le> lmt)"
proof -
  have a: "size_t_of_int mrs = nat mrs"
    using assms by (intro size_t_of_int_nat) auto
  have b: "size_t_add j (nat mrs) = j + nat mrs"
    using assms by (simp add: size_t_add_def)
  have c: "size_t_sub (j + nat mrs) 1 = j + nat mrs - 1"
    using assms by (intro size_t_sub_eq) auto
  show ?thesis
    unfolding a b c using assms by auto
qed

lemma clean_cond:
  assumes "1 \<le> mrs" "mrs \<le> 46684427" "i \<le> 943899731087"
  shows "(size_t_add i (size_t_of_int mrs) < len) = (i + nat mrs < len)"
proof -
  have a: "size_t_of_int mrs = nat mrs"
    using assms by (intro size_t_of_int_nat) auto
  have b: "size_t_add i (nat mrs) = i + nat mrs"
    using assms by (simp add: size_t_add_def)
  show ?thesis
    unfolding a b ..
qed

lemma size_t_incr: "j \<le> 943899731087 \<Longrightarrow> size_t_add j 1 = j + 1"
  by (simp add: size_t_add_def)

lemma index_position_step:
  assumes inv: "inv1 N M (bucket g sp M) J s" and sub: "\<forall>q \<in> J. q < N"
    and j: "j < N" and N: "N = Token_Array_Length g" and M: "0 < M"
    and h: "hash1 g sp j \<noteq> None"
  shows "index_position g sp M j s
           = Some (if starts_run g j then step1 (bucket g sp M) j s else s)"
proof -
  obtain fr li where s: "s = (fr, li)" by (cases s)
  from h obtain hv where hv: "hash1 g sp j = Some hv" by auto
  then have b: "bucket g sp M j = hv mod M" by (simp add: bucket_def)
  from inv have len: "length fr = N" "length li = M"
    and T: "\<forall>h < M. latest (bucket g sp M) J h (li ! h)"
    by (auto simp: inv1_def s)
  have hm: "hv mod M < M" using M by simp
  from T hm have "latest (bucket g sp M) J (hv mod M) (li ! (hv mod M))" by simp
  then have "li ! (hv mod M) \<noteq> 0 \<longrightarrow> li ! (hv mod M) \<in> J"
    by (auto simp: latest_def split: if_splits)
  with sub have lt: "li ! (hv mod M) \<noteq> 0 \<longrightarrow> li ! (hv mod M) < N" by auto
  have tk: "Token_at g j = Some (Token_Array g ! j)"
    using j N by (simp add: Token_at_def Token_Array_Length_def)
  have "\<not> M \<le> hv mod M"
    using hm by (simp only: not_le)
  then have nle: "\<not> (M = 0 \<or> length li \<le> hv mod M)"
    using M len by simp
  show ?thesis
    unfolding index_position_def s tk hv starts_run_def step1_def b
    using lt len nle by simp
qed

lemma index_position_inv1:
  assumes inv: "inv1 N M (bucket g sp M) J s" and sub: "\<forall>q \<in> J. q < N"
    and j: "j < N" "0 < j" and N: "N = Token_Array_Length g" and M: "0 < M"
    and h: "hash1 g sp j \<noteq> None" and lt: "\<forall>q \<in> J. q < j" and pos: "0 \<notin> J"
  shows "\<exists>s'. index_position g sp M j s = Some s' \<and>
           inv1 N M (bucket g sp M) (if starts_run g j then insert j J else J) s'"
proof -
  have "bucket g sp M j < M"
    using h M by (auto simp: bucket_def)
  from step1_inv1[OF inv j lt pos this sub] inv
  show ?thesis
    unfolding index_position_step[OF inv sub j(1) N M h] by simp
qed

lemma run_starts_empty: "\<not> j + nat (Min_Run_Size g) \<le> lmt \<Longrightarrow> run_starts g j lmt = {}"
  by (auto simp: run_starts_def)

lemma run_starts_step:
  "j + nat (Min_Run_Size g) \<le> lmt \<Longrightarrow>
   (if starts_run g j then insert j J else J) \<union> run_starts g (j + 1) lmt
     = J \<union> run_starts g j lmt"
  by (auto simp: run_starts_def Suc_le_eq le_less)

lemma text_loop_inv1:
  assumes V: "1 \<le> Min_Run_Size g" "Min_Run_Size g \<le> 46684427"
    and N: "N = Token_Array_Length g" "N \<le> 943899731087"
    and M: "0 < M" and sp: "sp = find_sample_positions (Min_Run_Size g)"
  shows "inv1 N M (bucket g sp M) J s \<Longrightarrow> \<forall>q \<in> J. q < j \<Longrightarrow> 0 \<notin> J \<Longrightarrow> 0 < j
     \<Longrightarrow> j \<le> N \<Longrightarrow> lmt \<le> N
     \<Longrightarrow> \<exists>s'. text_loop g sp M lmt j s = Some s' \<and>
           inv1 N M (bucket g sp M) (J \<union> run_starts g j lmt) s'"
proof (induction "lmt - j" arbitrary: j J s rule: less_induct)
  case less
  let ?m = "nat (Min_Run_Size g)"
  have jb: "j \<le> 943899731087" using less.prems(5) N(2) by simp
  note cond = loop_cond[OF V jb, of lmt]
  show ?case
  proof (cases "j + ?m \<le> lmt")
    case False
    then have "text_loop g sp M lmt j s = Some s"
      by (subst text_loop.simps, subst cond) simp
    with less.prems(1) run_starts_empty[OF False] show ?thesis by simp
  next
    case True
    have m1: "1 \<le> ?m" using V by simp
    with True less.prems(6) have jN: "j < N" and jl: "j < lmt" by auto
    have sub: "\<forall>q \<in> J. q < N" using less.prems(2) jN by auto
    have "j + ?m \<le> Token_Array_Length g" using True less.prems(6) N by simp
    from hash1_defined[OF V this] have h: "hash1 g sp j \<noteq> None"
      by (auto simp: sp)
    let ?J = "if starts_run g j then insert j J else J"
    from index_position_inv1[OF less.prems(1) sub jN less.prems(4) N(1) M h less.prems(2,3)]
    obtain s1 where s1: "index_position g sp M j s = Some s1"
      and i1: "inv1 N M (bucket g sp M) ?J s1"
      by auto
    have a: "\<forall>q \<in> ?J. q < j + 1" using less.prems(2) by (auto simp: less_Suc_eq)
    have b: "0 \<notin> ?J" using less.prems(3,4) by auto
    have "lmt - (j + 1) < lmt - j" using jl by simp
    from less.hyps[OF this i1 a b _ _ less.prems(6)] jN
    obtain s' where s': "text_loop g sp M lmt (j + 1) s1 = Some s'"
      and i': "inv1 N M (bucket g sp M) (?J \<union> run_starts g (j + 1) lmt) s'"
      by auto
    have "size_t_add j (Suc 0) = j + 1"
      using size_t_incr[OF jb] by simp
    with s' have "text_loop g sp M lmt j s = Some s'"
      by (subst text_loop.simps, subst cond) (simp add: True s1)
    with i' run_starts_step[OF True, of J] show ?thesis by simp
  qed
qed

lemma texts_loop_inv1:
  assumes V: "1 \<le> Min_Run_Size g" "Min_Run_Size g \<le> 46684427"
    and N: "N = Token_Array_Length g" "N \<le> 943899731087"
    and M: "0 < M" and sp: "sp = find_sample_positions (Min_Run_Size g)"
  shows "texts_ok N lo txts \<Longrightarrow> 0 < lo \<Longrightarrow> lo \<le> N \<Longrightarrow> inv1 N M (bucket g sp M) J s
     \<Longrightarrow> \<forall>q \<in> J. q + nat (Min_Run_Size g) \<le> lo \<Longrightarrow> 0 \<notin> J
     \<Longrightarrow> \<exists>s'. texts_loop g sp M txts s = Some s' \<and>
           inv1 N M (bucket g sp M)
             (J \<union> (\<Union>txt \<in> set txts. run_starts g (tx_start txt) (tx_limit txt))) s'"
proof (induction txts arbitrary: lo J s)
  case Nil
  then show ?case by simp
next
  case (Cons tx txts)
  let ?m = "nat (Min_Run_Size g)"
  have m1: "1 \<le> ?m" using V by simp
  from Cons.prems(1) have t: "lo \<le> tx_start tx" "tx_start tx \<le> tx_limit tx"
    "tx_limit tx \<le> N" "texts_ok N (tx_limit tx) txts"
    by auto
  have a: "\<forall>q \<in> J. q < tx_start tx"
    using Cons.prems(5) t(1) m1 by fastforce
  have "0 < tx_start tx" "tx_start tx \<le> N" using t Cons.prems(2) by auto
  from text_loop_inv1[OF V N M sp Cons.prems(4) a Cons.prems(6) this t(3)]
  obtain s1 where s1: "text_loop g sp M (tx_limit tx) (tx_start tx) s = Some s1"
    and i1: "inv1 N M (bucket g sp M) (J \<union> run_starts g (tx_start tx) (tx_limit tx)) s1"
    by auto
  let ?J = "J \<union> run_starts g (tx_start tx) (tx_limit tx)"
  have b: "\<forall>q \<in> ?J. q + ?m \<le> tx_limit tx"
    using Cons.prems(5) t(1,2) by (fastforce simp: run_starts_def)
  have c: "0 \<notin> ?J" using Cons.prems(6) \<open>0 < tx_start tx\<close> by (auto simp: run_starts_def)
  have "0 < tx_limit tx" using t \<open>0 < tx_start tx\<close> by simp
  from Cons.IH[OF t(4) this t(3) i1 b c]
  obtain s' where "texts_loop g sp M txts s1 = Some s'"
    "inv1 N M (bucket g sp M) (?J \<union> (\<Union>tx \<in> set txts. run_starts g (tx_start tx) (tx_limit tx))) s'"
    by auto
  with s1 show ?case by (simp add: Un_assoc)
qed

lemma indexed_run_starts:
  assumes "1 \<le> Min_Run_Size g"
  shows "(\<Union>txt \<in> set (Text g). run_starts g (tx_start txt) (tx_limit txt)) = {j. indexed g j}"
  using assms by (auto simp: indexed_def run_starts_def starts_run_def)

lemma nth_find_sample_positions_window:
  assumes "1 \<le> mrs" "mrs \<le> 46684427" "n < N_SAMPLES"
  shows "find_sample_positions mrs ! n < nat mrs"
  using sample_pos_entry_window[OF assms] assms(3) by (simp add: nth_find_sample_positions)

lemma hash2_defined:
  assumes "1 \<le> Min_Run_Size g" "Min_Run_Size g \<le> 46684427"
    and "p + nat (Min_Run_Size g) \<le> Token_Array_Length g"
  shows "\<exists>h. hash2 g (find_sample_positions (Min_Run_Size g)) p = Some h"
proof -
  have "\<exists>w. extract_Token g (find_sample_positions (Min_Run_Size g)) p n = Some w"
    if "n < N_SAMPLES" for n
    using nth_find_sample_positions_window[OF assms(1,2) that] assms(3)
    by (simp add: extract_Token_def Token_at_def Token_Array_Length_def)
  from this[of 0] this[of 23] this[of 11] this[of 5] this[of 17]
  show ?thesis
    by (auto simp: hash2_def N_SAMPLES_def Let_def)
qed

lemma chain_search_spec:
  assumes len: "length fr = N"
    and L: "\<forall>p. j0 \<le> p \<and> p < N \<longrightarrow> link1 b J p (fr ! p)"
    and Hd: "\<forall>q \<in> J. hash2 g sp q \<noteq> None"
    and sub: "\<forall>q \<in> J. q < N"
  shows "j0 \<le> j \<Longrightarrow> j < N
    \<Longrightarrow> \<exists>v. chain_search g sp fr h2 j = Some v \<and>
          (if j \<in> J \<and> (\<exists>q \<in> J. j < q \<and> b q = b j \<and> hash2 g sp q = Some h2)
           then v \<in> J \<and> j < v \<and> b v = b j \<and> hash2 g sp v = Some h2 \<and>
                (\<forall>r \<in> J. j < r \<and> b r = b j \<and> hash2 g sp r = Some h2 \<longrightarrow> v \<le> r)
           else v = 0)"
proof (induction "N - j" arbitrary: j rule: less_induct)
  case less
  from L less.prems have l: "link1 b J j (fr ! j)" by simp
  show ?case
  proof (cases "fr ! j = 0")
    case True
    then have r: "chain_search g sp fr h2 j = Some 0"
      using less.prems len by (subst chain_search.simps) simp
    from True l have "\<not> (j \<in> J \<and> (\<exists>q \<in> J. j < q \<and> b q = b j))"
      by (auto simp: link1_def split: if_splits)
    then have "\<not> (j \<in> J \<and> (\<exists>q \<in> J. j < q \<and> b q = b j \<and> hash2 g sp q = Some h2))"
      by auto
    with r show ?thesis by simp
  next
    case False
    let ?q = "fr ! j"
    from False l have q: "j \<in> J" "?q \<in> J" "j < ?q" "b ?q = b j"
      "\<forall>r \<in> J. j < r \<and> b r = b j \<longrightarrow> ?q \<le> r"
      by (auto simp: link1_def split: if_splits)
    from Hd q(2) obtain h where h: "hash2 g sp ?q = Some h" by auto
    show ?thesis
    proof (cases "h = h2")
      case True
      then have "chain_search g sp fr h2 j = Some ?q"
        using less.prems len False h by (subst chain_search.simps) simp
      with q h True show ?thesis by auto
    next
      case ne: False
      have qN: "?q < N" using sub q(2) by simp
      have "N - ?q < N - j" using q(3) less.prems by simp
      from less.hyps[OF this _ qN] less.prems(1) q(3)
      obtain v where v: "chain_search g sp fr h2 ?q = Some v"
        and sv: "if ?q \<in> J \<and> (\<exists>r \<in> J. ?q < r \<and> b r = b ?q \<and> hash2 g sp r = Some h2)
           then v \<in> J \<and> ?q < v \<and> b v = b ?q \<and> hash2 g sp v = Some h2 \<and>
                (\<forall>r \<in> J. ?q < r \<and> b r = b ?q \<and> hash2 g sp r = Some h2 \<longrightarrow> v \<le> r)
           else v = 0"
        by auto
      have r: "chain_search g sp fr h2 j = Some v"
        using less.prems len False h ne v by (subst chain_search.simps) simp
      have eq: "(j < r \<and> b r = b j \<and> hash2 g sp r = Some h2)
                = (?q < r \<and> b r = b ?q \<and> hash2 g sp r = Some h2)" if "r \<in> J" for r
      proof -
        have "?q < r" if "j < r" "b r = b j" "hash2 g sp r = Some h2"
        proof -
          from q(5) \<open>r \<in> J\<close> that have "?q \<le> r" by auto
          moreover have "?q \<noteq> r" using that(3) h ne by auto
          ultimately show ?thesis by simp
        qed
        with q(3,4) show ?thesis by auto
      qed
      show ?thesis
      proof (cases "\<exists>r \<in> J. ?q < r \<and> b r = b ?q \<and> hash2 g sp r = Some h2")
        case True
        with sv q(2) have 1: "v \<in> J" "?q < v" "b v = b ?q" "hash2 g sp v = Some h2"
          "\<forall>r \<in> J. ?q < r \<and> b r = b ?q \<and> hash2 g sp r = Some h2 \<longrightarrow> v \<le> r"
          by auto
        from True eq have "\<exists>r \<in> J. j < r \<and> b r = b j \<and> hash2 g sp r = Some h2" by auto
        moreover from 1 q have "j < v" "b v = b j" by auto
        moreover from 1(5) eq have "\<forall>r \<in> J. j < r \<and> b r = b j \<and> hash2 g sp r = Some h2 \<longrightarrow> v \<le> r"
          by auto
        ultimately show ?thesis using r 1 q(1) by auto
      next
        case False
        with sv have "v = 0" by auto
        moreover from False eq have "\<not> (\<exists>r \<in> J. j < r \<and> b r = b j \<and> hash2 g sp r = Some h2)"
          by auto
        ultimately show ?thesis using r by auto
      qed
    qed
  qed
qed

lemma clean_loop_spec:
  assumes V: "1 \<le> Min_Run_Size g" "Min_Run_Size g \<le> 46684427"
    and N: "N = Token_Array_Length g" "N \<le> 943899731087"
    and sp: "sp = find_sample_positions (Min_Run_Size g)"
    and J: "\<forall>q \<in> J. q + nat (Min_Run_Size g) \<le> N"
  shows "length fr = N \<Longrightarrow> i \<le> N
    \<Longrightarrow> \<forall>p < i. link2 b (hash2 g sp) J p (fr ! p)
    \<Longrightarrow> \<forall>p. i \<le> p \<and> p < N \<longrightarrow> link1 b J p (fr ! p)
    \<Longrightarrow> \<exists>fr'. clean_loop g sp i fr = Some fr' \<and> length fr' = N \<and>
           (\<forall>p < N. link2 b (hash2 g sp) J p (fr' ! p))"
proof (induction "N - i" arbitrary: i fr rule: less_induct)
  case less
  let ?m = "nat (Min_Run_Size g)"
  have m1: "1 \<le> ?m" using V by simp
  have ib: "i \<le> 943899731087" using less.prems(2) N(2) by simp
  note cond = clean_cond[OF V ib, of "Token_Array_Length g"]
  have sub: "\<forall>q \<in> J. q < N" using J m1 by fastforce
  have Hd: "\<forall>q \<in> J. hash2 g sp q \<noteq> None"
  proof
    fix q assume "q \<in> J"
    with J have "q + ?m \<le> Token_Array_Length g" using N by simp
    from hash2_defined[OF V this] show "hash2 g sp q \<noteq> None" by (simp add: sp)
  qed
  show ?case
  proof (cases "i + ?m < N")
    case False
    then have r: "clean_loop g sp i fr = Some fr"
      by (subst clean_loop.simps, subst cond) (simp add: N)
    have "link2 b (hash2 g sp) J p (fr ! p)" if p: "p < N" for p
    proof (cases "p < i")
      case True
      with less.prems(3) show ?thesis by simp
    next
      case ge: False
      have no: "\<not> (p \<in> J \<and> (\<exists>q \<in> J. p < q))"
      proof
        assume "p \<in> J \<and> (\<exists>q \<in> J. p < q)"
        then obtain q where "q \<in> J" "p < q" by auto
        with J have "p + ?m < N" by fastforce
        with ge False show False by simp
      qed
      from less.prems(4) ge p have "link1 b J p (fr ! p)" by simp
      with no have "fr ! p = 0" by (auto simp: link1_def split: if_splits)
      with no show ?thesis by (auto simp: link2_def)
    qed
    with r less.prems(1) show ?thesis by simp
  next
    case True
    then have iN: "i < N" by simp
    from True have "i + ?m \<le> Token_Array_Length g" using N by simp
    from hash2_defined[OF V this] obtain h2 where h2: "hash2 g sp i = Some h2"
      by (auto simp: sp)
    from chain_search_spec[OF less.prems(1,4) Hd sub le_refl iN, of h2]
    obtain v where v: "chain_search g sp fr h2 i = Some v"
      and sv: "if i \<in> J \<and> (\<exists>q \<in> J. i < q \<and> b q = b i \<and> hash2 g sp q = Some h2)
           then v \<in> J \<and> i < v \<and> b v = b i \<and> hash2 g sp v = Some h2 \<and>
                (\<forall>r \<in> J. i < r \<and> b r = b i \<and> hash2 g sp r = Some h2 \<longrightarrow> v \<le> r)
           else v = 0"
      by auto
    from sv have l2: "link2 b (hash2 g sp) J i v"
      unfolding link2_def h2 by simp
    let ?fr = "fr[i := v]"
    have a: "length ?fr = N" using less.prems(1) by simp
    have b: "\<forall>p < i + 1. link2 b (hash2 g sp) J p (?fr ! p)"
      using less.prems(1,3) l2 iN by (auto simp: nth_list_update less_Suc_eq)
    have c: "\<forall>p. i + 1 \<le> p \<and> p < N \<longrightarrow> link1 b J p (?fr ! p)"
      using less.prems(4) by (auto simp: nth_list_update)
    have "N - (i + 1) < N - i" using iN by simp
    from less.hyps[OF this a _ b c] iN
    obtain fr' where fr': "clean_loop g sp (i + 1) ?fr = Some fr'" "length fr' = N"
      "\<forall>p < N. link2 b (hash2 g sp) J p (fr' ! p)"
      by auto
    have "size_t_add i (Suc 0) = i + 1"
      using size_t_incr[OF ib] by simp
    with fr'(1) have "clean_loop g sp i fr = Some fr'"
      using iN less.prems(1) True
      by (subst clean_loop.simps, subst cond) (simp add: N h2 v)
    with fr' show ?thesis by simp
  qed
qed

lemma texts_ok_bounds:
  "texts_ok N lo txts \<Longrightarrow> t \<in> set txts \<Longrightarrow> lo \<le> tx_start t \<and> tx_limit t \<le> N"
proof (induction txts arbitrary: lo)
  case Nil
  then show ?case by simp
next
  case (Cons a txts)
  show ?case
  proof (cases "t = a")
    case True
    with Cons.prems show ?thesis by simp
  next
    case False
    with Cons.prems have "t \<in> set txts" "texts_ok N (tx_limit a) txts" by auto
    from Cons.IH[OF this(2,1)] Cons.prems(1) show ?thesis by simp
  qed
qed

lemma indexed_bounds:
  assumes "valid_input g" "indexed g j"
  shows "0 < j" "j + nat (Min_Run_Size g) \<le> Token_Array_Length g"
proof -
  from assms(2) obtain t where t: "t \<in> set (Text g)" "tx_start t \<le> j"
    "j + nat (Min_Run_Size g) - 1 < tx_limit t"
    by (auto simp: indexed_def)
  from assms(1) have "texts_ok (Token_Array_Length g) 1 (Text g)"
    by (simp add: valid_input_def)
  from texts_ok_bounds[OF this t(1)] t(2,3)
  show "0 < j" "j + nat (Min_Run_Size g) \<le> Token_Array_Length g"
    by auto
qed

lemma Make_Forward_References_links:
  assumes v: "valid_input g"
  shows "\<exists>st. Make_Forward_References g = Some (Returns st) \<and>
           length (forward_reference st) = Token_Array_Length g \<and>
           n_forward_references st = Token_Array_Length g \<and>
           sample_pos st = find_sample_positions (Min_Run_Size g) \<and>
           0 < last_index_table_size st \<and>
           (\<forall>p < Token_Array_Length g.
              link2 (bucket g (sample_pos st) (last_index_table_size st))
                    (hash2 g (sample_pos st)) {j. indexed g j} p (forward_reference st ! p))"
proof -
  let ?N = "Token_Array_Length g" and ?sp = "find_sample_positions (Min_Run_Size g)"
  from v have V: "1 \<le> Min_Run_Size g" "Min_Run_Size g \<le> 46684427"
    and N: "1 \<le> ?N" "?N \<le> 943899731087" and T: "texts_ok ?N 1 (Text g)"
    by (auto simp: valid_input_def)
  from init_hash_table_returns[OF v] obtain M where
    M: "init_hash_table g = Some (Returns (M, ?sp))" "0 < M"
    by auto
  let ?b = "bucket g ?sp M"
  from texts_loop_inv1[OF V refl N(2) M(2) refl T _ N(1) inv1_init]
  obtain s1 where s1: "texts_loop g ?sp M (Text g) (replicate ?N 0, replicate M 0) = Some s1"
    and i1: "inv1 ?N M ?b ({} \<union> (\<Union>txt \<in> set (Text g). run_starts g (tx_start txt) (tx_limit txt))) s1"
    by auto
  obtain fr1 li where s1e: "s1 = (fr1, li)" by (cases s1)
  from i1 have i1': "inv1 ?N M ?b {j. indexed g j} (fr1, li)"
    by (simp add: indexed_run_starts[OF V(1)] s1e)
  then have len1: "length fr1 = ?N" and L1: "\<forall>p. 0 \<le> p \<and> p < ?N \<longrightarrow> link1 ?b {j. indexed g j} p (fr1 ! p)"
    by (auto simp: inv1_def)
  have sw1: "make_forward_references_hash1 g (replicate ?N 0) = Some (Returns (fr1, M, ?sp))"
    by (simp add: make_forward_references_hash1_def M s1 s1e)
  have J: "\<forall>q \<in> {j. indexed g j}. q + nat (Min_Run_Size g) \<le> ?N"
    using indexed_bounds[OF v] by auto
  have z: "\<forall>p < 0. link2 ?b (hash2 g ?sp) {j. indexed g j} p (fr1 ! p)" by simp
  from clean_loop_spec[OF V refl N(2) refl J len1 _ z L1]
  obtain fr2 where fr2: "clean_loop g ?sp 0 fr1 = Some fr2" "length fr2 = ?N"
    "\<forall>p < ?N. link2 ?b (hash2 g ?sp) {j. indexed g j} p (fr2 ! p)"
    by auto
  have "Make_Forward_References g
          = Some (Returns \<lparr>forward_reference = fr2, n_forward_references = ?N,
                           last_index_table_size = M, sample_pos = ?sp\<rparr>)"
    by (simp add: Make_Forward_References_def sw1 clean_forward_references_hash2_def fr2(1))
  with fr2 M(2) show ?thesis by simp
qed

lemma chain_from_spec:
  assumes len: "length fr = N" and L: "\<forall>p < N. link2 b H J p (fr ! p)"
    and sub: "\<forall>q \<in> J. q < N"
  shows "p < N \<Longrightarrow> N - p \<le> n
    \<Longrightarrow> sorted_wrt (<) (chain_from fr n p) \<and>
        set (chain_from fr n p) = (if p \<in> J then {q \<in> J. p < q \<and> b q = b p \<and> H q = H p} else {}) \<and>
        (\<forall>q \<in> set (chain_from fr n p). p < q) \<and>
        fr ! last (p # chain_from fr n p) = 0"
proof (induction "N - p" arbitrary: p n rule: less_induct)
  case less
  from less.prems obtain n' where n: "n = Suc n'" by (cases n) auto
  from L less.prems(1) have l: "link2 b H J p (fr ! p)" by simp
  show ?case
  proof (cases "fr ! p = 0")
    case True
    with l have "\<not> (p \<in> J \<and> (\<exists>q \<in> J. p < q \<and> b q = b p \<and> H q = H p))"
      by (auto simp: link2_def split: if_splits)
    then have "(if p \<in> J then {q \<in> J. p < q \<and> b q = b p \<and> H q = H p} else {}) = {}"
      by auto
    with True show ?thesis by (simp add: n)
  next
    case False
    let ?v = "fr ! p"
    from False l have q: "p \<in> J" "?v \<in> J" "p < ?v" "b ?v = b p" "H ?v = H p"
      "\<forall>r \<in> J. p < r \<and> b r = b p \<and> H r = H p \<longrightarrow> ?v \<le> r"
      by (auto simp: link2_def split: if_splits)
    have vN: "?v < N" using sub q(2) by simp
    have lt: "N - ?v < N - p" using q(3) less.prems(1) by simp
    have le: "N - ?v \<le> n'" using q(3) less.prems n by simp
    note ih = less.hyps[OF lt vN le]
    have IH: "sorted_wrt (<) (chain_from fr n' ?v)"
      "set (chain_from fr n' ?v) = {r \<in> J. ?v < r \<and> b r = b ?v \<and> H r = H ?v}"
      "\<forall>r \<in> set (chain_from fr n' ?v). ?v < r"
      "fr ! last (?v # chain_from fr n' ?v) = 0"
      using ih[THEN conjunct1] ih[THEN conjunct2, THEN conjunct1, unfolded if_P[OF q(2)]]
        ih[THEN conjunct2, THEN conjunct2, THEN conjunct1]
        ih[THEN conjunct2, THEN conjunct2, THEN conjunct2]
      by - assumption+
    have c: "chain_from fr n p = ?v # chain_from fr n' ?v"
      using False less.prems(1) len by (simp add: n)
    have e: "{r \<in> J. p < r \<and> b r = b p \<and> H r = H p}
            = insert ?v {r \<in> J. ?v < r \<and> b r = b ?v \<and> H r = H ?v}"
    proof (intro set_eqI iffI)
      fix r assume "r \<in> {r \<in> J. p < r \<and> b r = b p \<and> H r = H p}"
      then have r: "r \<in> J" "p < r" "b r = b p" "H r = H p" by auto
      with q(6) have "?v \<le> r" by simp
      with r q(4,5) show "r \<in> insert ?v {r \<in> J. ?v < r \<and> b r = b ?v \<and> H r = H ?v}"
        by (cases "r = ?v") auto
    next
      fix r assume "r \<in> insert ?v {r \<in> J. ?v < r \<and> b r = b ?v \<and> H r = H ?v}"
      then consider "r = ?v" | "r \<in> J" "?v < r" "b r = b ?v" "H r = H ?v" by auto
      then show "r \<in> {r \<in> J. p < r \<and> b r = b p \<and> H r = H p}"
      proof cases
        case 1
        with q show ?thesis by simp
      next
        case 2
        with q(3,4,5) show ?thesis by simp
      qed
    qed
    have s1: "sorted_wrt (<) (chain_from fr n p)"
      unfolding c using IH(1,3) by simp
    have s2: "set (chain_from fr n p)
                = (if p \<in> J then {q \<in> J. p < q \<and> b q = b p \<and> H q = H p} else {})"
      unfolding c e using IH(2) q(1) by simp
    have s3: "\<forall>r \<in> set (chain_from fr n p). p < r"
      unfolding c using IH(3) q(3) by auto
    have s4: "fr ! last (p # chain_from fr n p) = 0"
      unfolding c using IH(4) by simp
    from s1 s2 s3 s4 show ?thesis by blast
  qed
qed

lemma hash_match_indexed:
  assumes v: "valid_input g" and sp: "sample_pos st = find_sample_positions (Min_Run_Size g)"
    and p: "indexed g p" and q: "indexed g q"
  shows "hash_match g st p q \<longleftrightarrow>
           bucket g (sample_pos st) (last_index_table_size st) q
             = bucket g (sample_pos st) (last_index_table_size st) p \<and>
           hash2 g (sample_pos st) q = hash2 g (sample_pos st) p"
proof -
  from v have V: "1 \<le> Min_Run_Size g" "Min_Run_Size g \<le> 46684427"
    by (auto simp: valid_input_def)
  from hash1_defined[OF V indexed_bounds(2)[OF v p]] hash1_defined[OF V indexed_bounds(2)[OF v q]]
  obtain hp hq where h1: "hash1 g (sample_pos st) p = Some hp" "hash1 g (sample_pos st) q = Some hq"
    by (auto simp: sp)
  from hash2_defined[OF V indexed_bounds(2)[OF v p]] hash2_defined[OF V indexed_bounds(2)[OF v q]]
  obtain kp kq where h2: "hash2 g (sample_pos st) p = Some kp" "hash2 g (sample_pos st) q = Some kq"
    by (auto simp: sp)
  show ?thesis
    by (simp add: hash_match_def bucket_def h1 h2)
qed

lemma links_sentinel_monotone:
  assumes L: "\<forall>p < N. link2 b H J p (fr ! p)" and z: "0 \<notin> J" and N: "0 < N"
    and sub: "\<forall>q \<in> J. q < N"
  shows "fr ! 0 = 0" and "\<forall>p < N. fr ! p = 0 \<or> (p < fr ! p \<and> fr ! p < N)"
proof -
  from L N have "link2 b H J 0 (fr ! 0)" by simp
  with z show "fr ! 0 = 0" by (simp add: link2_def)
  show "\<forall>p < N. fr ! p = 0 \<or> (p < fr ! p \<and> fr ! p < N)"
  proof (intro allI impI)
    fix p assume "p < N"
    with L have "link2 b H J p (fr ! p)" by simp
    then show "fr ! p = 0 \<or> (p < fr ! p \<and> fr ! p < N)"
      using sub by (auto simp: link2_def split: if_splits)
  qed
qed

lemma links_indexed:
  assumes L: "\<forall>p < N. link2 b H J p (fr ! p)" and p: "p < N" and nz: "fr ! p \<noteq> 0"
  shows "p \<in> J \<and> fr ! p \<in> J"
proof -
  from L p have "link2 b H J p (fr ! p)" by simp
  with nz show ?thesis by (auto simp: link2_def split: if_splits)
qed

lemma links_disjoint:
  assumes L: "\<forall>p < N. link2 b H J p (fr ! p)" and i: "i1 < i2" "i2 < N"
    and e: "fr ! i1 = fr ! i2"
  shows "fr ! i1 = 0"
proof (rule ccontr)
  assume nz: "fr ! i1 \<noteq> 0"
  let ?q = "fr ! i1"
  from L i have l1: "link2 b H J i1 ?q" by simp
  from L i e have l2: "link2 b H J i2 ?q" by simp
  from l1 nz have 1: "i1 \<in> J" "b ?q = b i1" "H ?q = H i1"
    "\<forall>r \<in> J. i1 < r \<and> b r = b i1 \<and> H r = H i1 \<longrightarrow> ?q \<le> r"
    by (auto simp: link2_def split: if_splits)
  from l2 nz have 2: "i2 \<in> J" "i2 < ?q" "b ?q = b i2" "H ?q = H i2"
    by (auto simp: link2_def split: if_splits)
  from 1(2,3) 2(3,4) have "b i2 = b i1" "H i2 = H i1" by simp_all
  with 1(4) 2(1) i(1) have "?q \<le> i2" by simp
  with 2(2) show False by simp
qed

lemma valid_input_facts:
  assumes "valid_input g"
  shows "0 < Token_Array_Length g" "0 \<notin> {j. indexed g j}"
    "\<forall>q \<in> {j. indexed g j}. q < Token_Array_Length g"
proof -
  from assms show "0 < Token_Array_Length g" by (simp add: valid_input_def)
  from indexed_bounds(1)[OF assms, of 0] show "0 \<notin> {j. indexed g j}" by auto
  from assms have "1 \<le> Min_Run_Size g" by (simp add: valid_input_def)
  with indexed_bounds(2)[OF assms]
  show "\<forall>q \<in> {j. indexed g j}. q < Token_Array_Length g" by fastforce
qed

lemma Make_Forward_References_chains:
  assumes v: "valid_input g"
  shows "\<exists>st. Make_Forward_References g = Some (Returns st) \<and>
           sample_pos st = find_sample_positions (Min_Run_Size g) \<and>
           (\<forall>p < Token_Array_Length g.
              (indexed g p \<longrightarrow>
                 sorted_wrt (<) (chain (forward_reference st) p) \<and>
                 set (chain (forward_reference st) p)
                   = {q. indexed g q \<and> p < q \<and> hash_match g st p q}) \<and>
              (\<not> indexed g p \<longrightarrow> chain (forward_reference st) p = []) \<and>
              forward_reference st ! last (p # chain (forward_reference st) p) = 0)"
proof -
  from Make_Forward_References_links[OF v] obtain st where
    st: "Make_Forward_References g = Some (Returns st)"
      "length (forward_reference st) = Token_Array_Length g"
      "sample_pos st = find_sample_positions (Min_Run_Size g)"
    and L: "\<forall>p < Token_Array_Length g.
              link2 (bucket g (sample_pos st) (last_index_table_size st))
                    (hash2 g (sample_pos st)) {j. indexed g j} p (forward_reference st ! p)"
    by blast
  let ?N = "Token_Array_Length g" and ?fr = "forward_reference st"
  let ?b = "bucket g (sample_pos st) (last_index_table_size st)" and ?H = "hash2 g (sample_pos st)"
  note f = valid_input_facts[OF v]
  have "(indexed g p \<longrightarrow>
            sorted_wrt (<) (chain ?fr p) \<and>
            set (chain ?fr p) = {q. indexed g q \<and> p < q \<and> hash_match g st p q}) \<and>
        (\<not> indexed g p \<longrightarrow> chain ?fr p = []) \<and>
        ?fr ! last (p # chain ?fr p) = 0" if p: "p < ?N" for p
  proof -
    have "?N - p \<le> ?N" by simp
    note c = chain_from_spec[OF st(2) L f(3) p this, folded chain_def[of ?fr, unfolded st(2)]]
    have s: "sorted_wrt (<) (chain ?fr p)" using c by (rule conjunct1)
    have e: "set (chain ?fr p)
               = (if p \<in> {j. indexed g j}
                  then {q \<in> {j. indexed g j}. p < q \<and> ?b q = ?b p \<and> ?H q = ?H p} else {})"
      using c by blast
    have l: "?fr ! last (p # chain ?fr p) = 0" using c by blast
    have m: "{q \<in> {j. indexed g j}. p < q \<and> ?b q = ?b p \<and> ?H q = ?H p}
               = {q. indexed g q \<and> p < q \<and> hash_match g st p q}" if "indexed g p"
      using hash_match_indexed[OF v st(3) that] by auto
    show ?thesis
    proof (cases "indexed g p")
      case True
      with e m s l show ?thesis by simp
    next
      case False
      with e l show ?thesis by simp
    qed
  qed
  with st show ?thesis by blast
qed

subsection \<open>The construction on a small input\<close>

text \<open>
  \<open>Make_Forward_References\<close> on \<open>two_texts\<close>, step by step. The windows at 1, 2 and 3
  are all \<open>(7, 7)\<close>; the first sweep indexes 1 (text A) and 3 (text B), but not 2, whose
  window runs over the end of text A. The result is \<open>fr = [0, 3, 0, 0, 0]\<close>.
\<close>

lemma hash1_sevens:
  assumes "Token_Array g = [0, 7, 7, 7, 7 :: nat]" "Token2int g = int" "p \<in> {1, 2, 3}"
  shows "hash1 g [0,0,0,0,0,0,0,0,0,0,0,0,1,1,1,1,1,1,1,1,1,1,1,1] p = Some 50331645"
proof -
  from assms(3) consider "p = 1" | "p = 2" | "p = 3" by auto
  then show ?thesis
  proof cases
    case 1
    then show ?thesis
      using assms(1,2)
      by (simp add: hash1_def N_SAMPLES_def upt_rec Token_at_def hash1_shift_def HASH_W_def
            split del: if_split)
  next
    case 2
    then show ?thesis
      using assms(1,2)
      by (simp add: hash1_def N_SAMPLES_def upt_rec Token_at_def hash1_shift_def HASH_W_def
            split del: if_split)
  next
    case 3
    then show ?thesis
      using assms(1,2)
      by (simp add: hash1_def N_SAMPLES_def upt_rec Token_at_def hash1_shift_def HASH_W_def
            split del: if_split)
  qed
qed

lemma hash2_sevens:
  assumes "Token_Array g = [0, 7, 7, 7, 7 :: nat]" "Token2int g = int" "p \<in> {1, 2, 3}"
  shows "hash2 g [0,0,0,0,0,0,0,0,0,0,0,0,1,1,1,1,1,1,1,1,1,1,1,1] p = Some 15764523076055047"
  using assms
  by (auto simp add: hash2_def N_SAMPLES_def VLONG_W_def extract_Token_def Token_at_def Let_def)

lemma hash2_slot_0:
  assumes "Token_Array g = [0, 7, 7, 7, 7 :: nat]" "Token2int g = int"
  shows "hash2 g [0,0,0,0,0,0,0,0,0,0,0,0,1,1,1,1,1,1,1,1,1,1,1,1] 0 = Some 15762598695825408"
  using assms
  by (auto simp add: hash2_def N_SAMPLES_def VLONG_W_def extract_Token_def Token_at_def Let_def)


lemma two_texts_sel: "Token_Array two_texts = [0, 7, 7, 7, 7]" "Token2int two_texts = int" "Min_Run_Size two_texts = 2"
  "May_Be_Start_Of_Run two_texts = (\<lambda>_. True)" 
  "Text two_texts = [\<lparr>tx_fname = ''A'', tx_start = 1, tx_limit = 3\<rparr>,
              \<lparr>tx_fname = ''B'', tx_start = 3, tx_limit = 5\<rparr>]"
  "TryCalloc two_texts = (\<lambda>_. True)"
  by (simp_all add: two_texts_def)

lemmas size_t_defs = size_t_sub_def size_t_add_def size_t_of_int_def

lemma bucket_963: "(50331645::nat) mod 14051 = 963" by simp

lemma hash1_two_texts: "hash1 two_texts (find_sample_positions 2) (Suc 0) = Some 50331645" "hash1 two_texts (find_sample_positions 2) 3 = Some 50331645"
  unfolding find_sample_positions_2 by (rule hash1_sevens[OF two_texts_sel(1,2)], simp)+

lemma Token_at_two_texts: "Token_at two_texts (Suc 0) = Some 7" "Token_at two_texts 3 = Some 7"
  by (simp_all add: Token_at_def two_texts_sel)

lemma index_position_two_texts_1: "index_position two_texts (find_sample_positions 2) 14051 (Suc 0) (replicate 5 0, replicate 14051 0)
   = Some (replicate 5 0, (replicate 14051 0)[963 := Suc 0])"
  unfolding index_position_def hash1_two_texts Token_at_two_texts
  apply (simp only: prod.case option.case)
  apply (simp only: two_texts_sel if_True)
  apply (simp only: bucket_963)
  apply simp
  done

lemma index_position_two_texts_3: "index_position two_texts (find_sample_positions 2) 14051 3 (replicate 5 0, (replicate 14051 0)[963 := Suc 0])
   = Some ((replicate 5 0)[Suc 0 := 3], (replicate 14051 0)[963 := 3])"
  unfolding index_position_def hash1_two_texts Token_at_two_texts
  apply (simp only: prod.case option.case)
  apply (simp only: two_texts_sel if_True)
  apply (simp only: bucket_963)
  apply simp
  done

lemma text_loop_two_texts_A: "text_loop two_texts (find_sample_positions 2) 14051 3 (Suc 0) (replicate 5 0, replicate 14051 0)
   = Some (replicate 5 0, (replicate 14051 0)[963 := Suc 0])"
  apply (subst text_loop.simps)
  apply (simp only: two_texts_sel index_position_two_texts_1 option.case)
  apply (simp add: size_t_defs)
  apply (subst text_loop.simps)
  apply (simp only: two_texts_sel)
  apply (simp add: size_t_defs)
  done

lemma text_loop_two_texts_B: "text_loop two_texts (find_sample_positions 2) 14051 5 3 (replicate 5 0, (replicate 14051 0)[963 := Suc 0])
   = Some ((replicate 5 0)[Suc 0 := 3], (replicate 14051 0)[963 := 3])"
  apply (subst text_loop.simps)
  apply (simp only: two_texts_sel index_position_two_texts_3 option.case)
  apply (simp add: size_t_defs)
  apply (subst text_loop.simps)
  apply (simp only: two_texts_sel)
  apply (simp add: size_t_defs)
  done

lemma init_two_texts: "init_hash_table two_texts = Some (Returns (14051, (find_sample_positions 2)))"
  by (simp add: init_hash_table_def Token_Array_Length_def two_texts_sel ideal_size_small prime_def
       )

lemma replicate_5: "replicate 5 (0::nat) = [0, 0, 0, 0, 0]"
  by (simp add: numeral_eq_Suc)

lemma sweep1_two_texts:
  "make_forward_references_hash1 two_texts (replicate 5 0) = Some (Returns ([0, 3, 0, 0, 0], 14051, (find_sample_positions 2)))"
  unfolding make_forward_references_hash1_def init_two_texts
  apply (simp only: option.case outcome.case prod.case two_texts_sel texts_loop.simps)
  apply (simp only: struct_text.simps One_nat_def text_loop_two_texts_A option.case text_loop_two_texts_B)
  apply (simp add: replicate_5)
  done

lemma chain_search_two_texts_0: "chain_search two_texts (find_sample_positions 2) [0, 3, 0, 0, 0] h 0 = Some 0"
  by (subst chain_search.simps) simp

lemma chain_search_two_texts_1: "chain_search two_texts (find_sample_positions 2) [0, 3, 0, 0, 0] 15764523076055047 (Suc 0) = Some 3"
  apply (subst chain_search.simps)
  apply (simp add: hash2_sevens[OF two_texts_sel(1,2), folded find_sample_positions_2])
  done

lemma chain_search_two_texts_2: "chain_search two_texts (find_sample_positions 2) [0, 3, 0, 0, 0] h 2 = Some 0"
  by (subst chain_search.simps) simp

lemma hash2_two_texts: "hash2 two_texts (find_sample_positions 2) 0 = Some 15762598695825408" "hash2 two_texts (find_sample_positions 2) (Suc 0) = Some 15764523076055047"
  "hash2 two_texts (find_sample_positions 2) 2 = Some 15764523076055047"
  unfolding find_sample_positions_2
  by (rule hash2_slot_0[OF two_texts_sel(1,2)], (rule hash2_sevens[OF two_texts_sel(1,2)], simp)+)

lemma clean_loop_two_texts_3: "clean_loop two_texts (find_sample_positions 2) 3 [0, 3, 0, 0, 0] = Some [0, 3, 0, 0, 0]"
  apply (subst clean_loop.simps)
  apply (simp only: two_texts_sel Token_Array_Length_def)
  apply (simp add: size_t_defs)
  done

lemma clean_loop_two_texts_2: "i = 2 \<Longrightarrow> clean_loop two_texts (find_sample_positions 2) i [0, 3, 0, 0, 0] = Some [0, 3, 0, 0, 0]"
  apply (subst clean_loop.simps)
  apply (simp only: two_texts_sel Token_Array_Length_def hash2_two_texts chain_search_two_texts_2 option.case)
  apply (simp add: size_t_defs clean_loop_two_texts_3)
  done

lemma clean_loop_two_texts_1: "i = 1 \<Longrightarrow> clean_loop two_texts (find_sample_positions 2) i [0, 3, 0, 0, 0] = Some [0, 3, 0, 0, 0]"
  apply (subst clean_loop.simps)
  apply (simp only: two_texts_sel Token_Array_Length_def One_nat_def hash2_two_texts chain_search_two_texts_1 option.case)
  apply (simp add: size_t_defs clean_loop_two_texts_2)
  done

lemma clean_loop_two_texts_0: "clean_loop two_texts (find_sample_positions 2) 0 [0, 3, 0, 0, 0] = Some [0, 3, 0, 0, 0]"
  apply (subst clean_loop.simps)
  apply (simp only: two_texts_sel Token_Array_Length_def hash2_two_texts chain_search_two_texts_0 option.case)
  apply (simp add: size_t_defs clean_loop_two_texts_1)
  done

lemma sweep1_two_texts_eq:
  "fr0 = replicate 5 0 \<Longrightarrow>
   make_forward_references_hash1 two_texts fr0 = Some (Returns ([0, 3, 0, 0, 0], 14051, (find_sample_positions 2)))"
  by (simp add: sweep1_two_texts)

lemma Make_Forward_References_two_texts:
  "Make_Forward_References two_texts
     = Some (Returns \<lparr>forward_reference = [0, 3, 0, 0, 0], n_forward_references = 5,
                       last_index_table_size = 14051, sample_pos = (find_sample_positions 2)\<rparr>)"
  by (simp add: Make_Forward_References_def Token_Array_Length_def two_texts_sel sweep1_two_texts_eq replicate_5
        clean_forward_references_hash2_def clean_loop_two_texts_0)

lemma valid_two_texts: "valid_input two_texts"
  unfolding valid_input_def
  apply (simp add: two_texts_sel Token_Array_Length_def)
  apply (rule exI[of _ 0])
  apply (simp add: prime_def)
  done

lemma indexed_two_texts:
  "indexed two_texts (Suc 0)" "\<not> indexed two_texts 2" "indexed two_texts 3"
  by (simp_all add: indexed_def two_texts_sel)

lemma chain_two_texts:
  "chain [0, 3, 0, 0, 0] (Suc 0) = [3]" "chain [0, 3, 0, 0, 0] 2 = []"
  by (simp_all add: chain_def numeral_eq_Suc)

lemma hash_match_two_texts:
  "hash_match two_texts
     \<lparr>forward_reference = [0, 3, 0, 0, 0], n_forward_references = 5,
      last_index_table_size = 14051, sample_pos = find_sample_positions 2\<rparr> (Suc 0) 2"
proof -
  have "hash1 two_texts (find_sample_positions 2) 2 = Some 50331645"
    unfolding find_sample_positions_2 by (rule hash1_sevens[OF two_texts_sel(1,2)]) simp
  then show ?thesis
    by (simp add: hash_match_def hash1_two_texts hash2_two_texts)
qed

subsection \<open>The forward-reference table\<close>

text \<open>
  Claim C3. On a valid input \<open>Make_Forward_References\<close> returns, with an array of one
  entry per token position; \<open>fr[0] = 0\<close>, and for every position \<open>p > 0\<close> of the array
  either \<open>fr[p] = 0\<close> or \<open>p < fr[p]\<close>, and \<open>fr[p]\<close> is again a position of the array.
\<close>

theorem forward_reference_monotone:
  assumes "valid_input g"
  shows "\<exists>st. Make_Forward_References g = Some (Returns st) \<and>
           length (forward_reference st) = Token_Array_Length g \<and>
           forward_reference st ! 0 = 0 \<and>
           (\<forall>p. 0 < p \<and> p < Token_Array_Length g \<longrightarrow>
                forward_reference st ! p = 0 \<or>
                (p < forward_reference st ! p \<and> forward_reference st ! p < Token_Array_Length g))"
proof -
  from Make_Forward_References_links[OF assms] obtain st where
    st: "Make_Forward_References g = Some (Returns st)"
      "length (forward_reference st) = Token_Array_Length g"
    and L: "\<forall>p < Token_Array_Length g.
              link2 (bucket g (sample_pos st) (last_index_table_size st))
                    (hash2 g (sample_pos st)) {j. indexed g j} p (forward_reference st ! p)"
    by blast
  note f = valid_input_facts[OF assms]
  from links_sentinel_monotone[OF L f(2) f(1) f(3)] st show ?thesis by blast
qed

theorem forward_reference_monotone_witness:
  "valid_input two_texts \<and>
   Make_Forward_References two_texts
     = Some (Returns \<lparr>forward_reference = [0, 3, 0, 0, 0], n_forward_references = 5,
                       last_index_table_size = 14051, sample_pos = find_sample_positions 2\<rparr>) \<and>
   [0, 3, 0, 0, 0 :: nat] ! 0 = 0 \<and>
   1 < [0, 3, 0, 0, 0 :: nat] ! 1 \<and> [0, 3, 0, 0, 0 :: nat] ! 1 < Token_Array_Length two_texts \<and>
   [0, 3, 0, 0, 0 :: nat] ! 2 = 0"
proof -
  from forward_reference_monotone[OF valid_two_texts] obtain st where
    st: "Make_Forward_References two_texts = Some (Returns st)"
    and z: "forward_reference st ! 0 = 0"
    and m: "\<forall>p. 0 < p \<and> p < Token_Array_Length two_texts \<longrightarrow>
              forward_reference st ! p = 0 \<or>
              (p < forward_reference st ! p \<and>
               forward_reference st ! p < Token_Array_Length two_texts)"
    by blast
  from st have fr: "forward_reference st = [0, 3, 0, 0, 0]"
    by (auto simp add: Make_Forward_References_two_texts)
  have "0 < (1::nat) \<and> 1 < Token_Array_Length two_texts"
    by (simp add: Token_Array_Length_def two_texts_sel)
  with m have "forward_reference st ! 1 = 0 \<or>
     (1 < forward_reference st ! 1 \<and> forward_reference st ! 1 < Token_Array_Length two_texts)"
    by blast
  with z fr valid_two_texts Make_Forward_References_two_texts show ?thesis
    by simp
qed

text \<open>
  Claim C2. After both sweeps no two distinct positions \<open>i1 < i2\<close> hold the same nonzero
  forward reference: if \<open>fr[i1]\<close> is not 0 then \<open>fr[i2]\<close> differs from it.
\<close>

theorem forward_reference_disjoint:
  assumes "valid_input g"
  shows "\<exists>st. Make_Forward_References g = Some (Returns st) \<and>
           (\<forall>i1 i2. i1 < i2 \<and> i2 < Token_Array_Length g \<and>
                forward_reference st ! i1 \<noteq> 0
                \<longrightarrow> forward_reference st ! i2 \<noteq> forward_reference st ! i1)"
proof -
  from Make_Forward_References_links[OF assms] obtain st where
    st: "Make_Forward_References g = Some (Returns st)"
    and L: "\<forall>p < Token_Array_Length g.
              link2 (bucket g (sample_pos st) (last_index_table_size st))
                    (hash2 g (sample_pos st)) {j. indexed g j} p (forward_reference st ! p)"
    by blast
  from links_disjoint[OF L] st show ?thesis by metis
qed

theorem forward_reference_disjoint_witness:
  "valid_input two_texts \<and>
   Make_Forward_References two_texts
     = Some (Returns \<lparr>forward_reference = [0, 3, 0, 0, 0], n_forward_references = 5,
                       last_index_table_size = 14051, sample_pos = find_sample_positions 2\<rparr>) \<and>
   (1 :: nat) < 2 \<and> 2 < Token_Array_Length two_texts \<and>
   [0, 3, 0, 0, 0 :: nat] ! 1 \<noteq> 0 \<and>
   [0, 3, 0, 0, 0 :: nat] ! 2 \<noteq> [0, 3, 0, 0, 0 :: nat] ! 1"
proof -
  from forward_reference_disjoint[OF valid_two_texts] obtain st where
    st: "Make_Forward_References two_texts = Some (Returns st)"
    and d: "\<forall>i1 i2. i1 < i2 \<and> i2 < Token_Array_Length two_texts \<and>
                forward_reference st ! i1 \<noteq> 0
                \<longrightarrow> forward_reference st ! i2 \<noteq> forward_reference st ! i1"
    by blast
  from st have fr: "forward_reference st = [0, 3, 0, 0, 0]"
    by (auto simp add: Make_Forward_References_two_texts)
  have h: "(1::nat) < 2 \<and> 2 < Token_Array_Length two_texts \<and> forward_reference st ! 1 \<noteq> 0"
    by (simp add: Token_Array_Length_def two_texts_sel fr)
  with d have "forward_reference st ! 2 \<noteq> forward_reference st ! 1"
    by blast
  with h fr valid_two_texts Make_Forward_References_two_texts show ?thesis
    by simp
qed

text \<open>
  Claim C9. A nonzero forward reference \<open>fr[p]\<close> only links positions that the first
  sweep indexed: both \<open>p\<close> and \<open>fr[p]\<close> lie in the inner-loop range of some text, with
  the whole window inside that text, and a run may start at each.
\<close>

theorem forward_reference_indexed:
  assumes "valid_input g"
  shows "\<exists>st. Make_Forward_References g = Some (Returns st) \<and>
           (\<forall>p < Token_Array_Length g. forward_reference st ! p \<noteq> 0
                \<longrightarrow> indexed g p \<and> indexed g (forward_reference st ! p))"
proof -
  from Make_Forward_References_links[OF assms] obtain st where
    st: "Make_Forward_References g = Some (Returns st)"
    and L: "\<forall>p < Token_Array_Length g.
              link2 (bucket g (sample_pos st) (last_index_table_size st))
                    (hash2 g (sample_pos st)) {j. indexed g j} p (forward_reference st ! p)"
    by blast
  from links_indexed[OF L] st show ?thesis by blast
qed

theorem forward_reference_indexed_witness:
  "valid_input two_texts \<and>
   Make_Forward_References two_texts
     = Some (Returns \<lparr>forward_reference = [0, 3, 0, 0, 0], n_forward_references = 5,
                       last_index_table_size = 14051, sample_pos = find_sample_positions 2\<rparr>) \<and>
   1 < Token_Array_Length two_texts \<and>
   [0, 3, 0, 0, 0 :: nat] ! 1 = 3 \<and> indexed two_texts 1 \<and> indexed two_texts 3"
proof -
  from forward_reference_indexed[OF valid_two_texts] obtain st where
    st: "Make_Forward_References two_texts = Some (Returns st)"
    and d: "\<forall>p < Token_Array_Length two_texts. forward_reference st ! p \<noteq> 0
                \<longrightarrow> indexed two_texts p \<and> indexed two_texts (forward_reference st ! p)"
    by blast
  from st have fr: "forward_reference st = [0, 3, 0, 0, 0]"
    by (auto simp add: Make_Forward_References_two_texts)
  have h: "1 < Token_Array_Length two_texts" "forward_reference st ! 1 \<noteq> 0"
    by (simp_all add: Token_Array_Length_def two_texts_sel fr)
  with d have "indexed two_texts 1 \<and> indexed two_texts (forward_reference st ! 1)"
    by blast
  with h fr valid_two_texts Make_Forward_References_two_texts show ?thesis
    by simp
qed

text \<open>
  Claim C1, for the positions that the first sweep indexed. For an indexed position
  \<open>p\<close> the chain \<open>fr[p]\<close>, \<open>fr[fr[p]]\<close>, ... is strictly ascending and consists exactly
  of the indexed positions \<open>q > p\<close> whose window matches that of \<open>p\<close> under \<open>hash1\<close>
  modulo the table size and under \<open>hash2\<close>; for a position that is not indexed the
  chain is empty; and every chain ends at an entry 0.
\<close>

theorem forward_reference_chain:
  assumes "valid_input g"
  shows "\<exists>st. Make_Forward_References g = Some (Returns st) \<and>
           (\<forall>p < Token_Array_Length g.
              (indexed g p \<longrightarrow>
                 sorted_wrt (<) (chain (forward_reference st) p) \<and>
                 set (chain (forward_reference st) p)
                   = {q. indexed g q \<and> p < q \<and> hash_match g st p q}) \<and>
              (\<not> indexed g p \<longrightarrow> chain (forward_reference st) p = []) \<and>
              forward_reference st ! last (p # chain (forward_reference st) p) = 0)"
  using Make_Forward_References_chains[OF assms] by blast

theorem forward_reference_chain_witness:
  "valid_input two_texts \<and>
   Make_Forward_References two_texts
     = Some (Returns \<lparr>forward_reference = [0, 3, 0, 0, 0], n_forward_references = 5,
                       last_index_table_size = 14051, sample_pos = find_sample_positions 2\<rparr>) \<and>
   indexed two_texts 1 \<and>
   chain [0, 3, 0, 0, 0] 1 = [3] \<and>
   {q. indexed two_texts q \<and> 1 < q \<and>
       hash_match two_texts
         \<lparr>forward_reference = [0, 3, 0, 0, 0], n_forward_references = 5,
          last_index_table_size = 14051, sample_pos = find_sample_positions 2\<rparr> 1 q} = {3} \<and>
   \<not> indexed two_texts 2 \<and> chain [0, 3, 0, 0, 0] 2 = []"
proof -
  let ?st = "\<lparr>forward_reference = [0, 3, 0, 0, 0], n_forward_references = 5,
          last_index_table_size = 14051, sample_pos = find_sample_positions 2\<rparr>"
  from forward_reference_chain[OF valid_two_texts] obtain st where
    st: "Make_Forward_References two_texts = Some (Returns st)"
    and d: "\<forall>p < Token_Array_Length two_texts.
              (indexed two_texts p \<longrightarrow>
                 sorted_wrt (<) (chain (forward_reference st) p) \<and>
                 set (chain (forward_reference st) p)
                   = {q. indexed two_texts q \<and> p < q \<and> hash_match two_texts st p q}) \<and>
              (\<not> indexed two_texts p \<longrightarrow> chain (forward_reference st) p = []) \<and>
              forward_reference st ! last (p # chain (forward_reference st) p) = 0"
    by blast
  from st have e: "st = ?st"
    by (auto simp add: Make_Forward_References_two_texts)
  have h: "1 < Token_Array_Length two_texts" "2 < Token_Array_Length two_texts"
    by (simp_all add: Token_Array_Length_def two_texts_sel)
  from d h(1) indexed_two_texts(1)
  have "set (chain (forward_reference st) 1)
          = {q. indexed two_texts q \<and> 1 < q \<and> hash_match two_texts st 1 q}"
    by simp
  then have s: "{q. indexed two_texts q \<and> 1 < q \<and> hash_match two_texts ?st 1 q} = {3}"
    unfolding e by (simp add: chain_two_texts)
  from d h(2) indexed_two_texts(2) have "chain (forward_reference st) 2 = []"
    by simp
  then have c: "chain [0, 3, 0, 0, 0] 2 = []"
    unfolding e by simp
  from s c h indexed_two_texts chain_two_texts valid_two_texts Make_Forward_References_two_texts
  show ?thesis
    by simp
qed

text \<open>
  The claim as stated, for every position \<open>q > p\<close>, fails on \<open>two_texts\<close>: the window
  at position 2 matches the window at position 1 under both hashes, but 2 is not an
  indexed position (its window runs from text A into text B), and the chain of 1 is
  \<open>[3]\<close>.
\<close>

theorem forward_reference_chain_counterexample:
  "valid_input two_texts \<and>
   Make_Forward_References two_texts
     = Some (Returns \<lparr>forward_reference = [0, 3, 0, 0, 0], n_forward_references = 5,
                       last_index_table_size = 14051, sample_pos = find_sample_positions 2\<rparr>) \<and>
   hash_match two_texts
     \<lparr>forward_reference = [0, 3, 0, 0, 0], n_forward_references = 5,
      last_index_table_size = 14051, sample_pos = find_sample_positions 2\<rparr> 1 2 \<and>
   chain [0, 3, 0, 0, 0] 1 = [3] \<and>
   set (chain [0, 3, 0, 0, 0] 1)
     \<noteq> {q. 1 < q \<and>
             hash_match two_texts
               \<lparr>forward_reference = [0, 3, 0, 0, 0], n_forward_references = 5,
                last_index_table_size = 14051, sample_pos = find_sample_positions 2\<rparr> 1 q}"
proof -
  let ?st = "\<lparr>forward_reference = [0, 3, 0, 0, 0], n_forward_references = 5,
          last_index_table_size = 14051, sample_pos = find_sample_positions 2\<rparr>"
  have m: "hash_match two_texts ?st 1 2"
    using hash_match_two_texts by simp
  have c: "chain [0, 3, 0, 0, 0] 1 = [3]"
    using chain_two_texts by simp
  have "2 \<in> {q. 1 < q \<and> hash_match two_texts ?st 1 q}"
    using m by simp
  moreover have "(2::nat) \<notin> set (chain [0, 3, 0, 0, 0] 1)"
    unfolding c by simp
  ultimately have "set (chain [0, 3, 0, 0, 0] 1) \<noteq> {q. 1 < q \<and> hash_match two_texts ?st 1 q}"
    by blast
  with m c valid_two_texts Make_Forward_References_two_texts show ?thesis
    by simp
qed


section \<open>Properties of percentages.c\<close>

subsection \<open>Adding a run\<close>

lemma match_key_add_size [simp]: "match_key (add_size k sz m) = match_key m"
  by (simp add: add_size_def match_key_def)

lemma match_key_new_match [simp]:
  "match_key (new_match txts a b sz) = (tx_fname (txts ! a), tx_fname (txts ! b))"
  by (simp add: new_match_def match_key_def)

lemma do_add_absent:
  "(tx_fname (txts ! ch_text ch0), tx_fname (txts ! ch_text ch1)) \<notin> match_key ` set ms
   \<Longrightarrow> do_add_to_precentages txts ch0 ch1 sz ms
         = ms @ [new_match txts (ch_text ch0) (ch_text ch1) sz]"
  by (induction ms) (auto simp: match_key_def new_match_def)

lemma map_add_size_id: "k \<notin> match_key ` set ms \<Longrightarrow> map (add_size k sz) ms = ms"
  by (induction ms) (auto simp: add_size_def)

lemma do_add_present:
  "distinct (map match_key ms)
   \<Longrightarrow> (tx_fname (txts ! ch_text ch0), tx_fname (txts ! ch_text ch1)) \<in> match_key ` set ms
   \<Longrightarrow> do_add_to_precentages txts ch0 ch1 sz ms
         = map (add_size (tx_fname (txts ! ch_text ch0), tx_fname (txts ! ch_text ch1)) sz) ms"
proof (induction ms)
  case Nil
  then show ?case by simp
next
  case (Cons m ms)
  let ?k = "(tx_fname (txts ! ch_text ch0), tx_fname (txts ! ch_text ch1))"
  show ?case
  proof (cases "match_key m = ?k")
    case True
    with Cons.prems(1) have "?k \<notin> match_key ` set ms"
      by auto
    then have "map (add_size ?k sz) ms = ms"
      by (rule map_add_size_id)
    moreover have "add_size ?k sz m = m\<lparr>ma_size := size_t_add (ma_size m) sz\<rparr>"
      using True by (simp add: add_size_def)
    moreover have "do_add_to_precentages txts ch0 ch1 sz (m # ms)
                     = m\<lparr>ma_size := size_t_add (ma_size m) sz\<rparr> # ms"
      using True by (simp add: match_key_def)
    ultimately show ?thesis by simp
  next
    case False
    then have "add_size ?k sz m = m"
      by (simp add: add_size_def)
    moreover have "do_add_to_precentages txts ch0 ch1 sz (m # ms)
                     = m # do_add_to_precentages txts ch0 ch1 sz ms"
      using False by (auto simp: match_key_def)
    moreover have "do_add_to_precentages txts ch0 ch1 sz ms = map (add_size ?k sz) ms"
      using Cons False by auto
    ultimately show ?thesis by simp
  qed
qed

lemma do_add_general:
  assumes "distinct (map match_key ms)"
  shows "do_add_to_precentages txts ch0 ch1 sz ms
         = map (add_size (tx_fname (txts ! ch_text ch0), tx_fname (txts ! ch_text ch1)) sz) ms
           @ (if (tx_fname (txts ! ch_text ch0), tx_fname (txts ! ch_text ch1)) \<in> match_key ` set ms
              then [] else [new_match txts (ch_text ch0) (ch_text ch1) sz])"
proof (cases "(tx_fname (txts ! ch_text ch0), tx_fname (txts ! ch_text ch1)) \<in> match_key ` set ms")
  case True
  then show ?thesis using do_add_present[OF assms True] by simp
next
  case False
  then have "map (add_size (tx_fname (txts ! ch_text ch0), tx_fname (txts ! ch_text ch1)) sz) ms = ms"
    by (rule map_add_size_id)
  with False show ?thesis using do_add_absent[OF False] by simp
qed

lemma do_add_keys:
  assumes "distinct (map match_key ms)"
  shows "map match_key (do_add_to_precentages txts ch0 ch1 sz ms)
         = map match_key ms
           @ (if (tx_fname (txts ! ch_text ch0), tx_fname (txts ! ch_text ch1)) \<in> match_key ` set ms
              then [] else [(tx_fname (txts ! ch_text ch0), tx_fname (txts ! ch_text ch1))])"
  unfolding do_add_general[OF assms] by (simp add: comp_def)

lemma do_add_distinct:
  assumes "distinct (map match_key ms)"
  shows "distinct (map match_key (do_add_to_precentages txts ch0 ch1 sz ms))"
  unfolding do_add_keys[OF assms] using assms by auto

lemma do_add_size0:
  assumes "distinct (map match_key ms)"
  shows "map ma_size0 (take (length ms) (do_add_to_precentages txts ch0 ch1 sz ms))
           = map ma_size0 ms"
  unfolding do_add_general[OF assms] by (simp add: add_size_def comp_def)

text \<open>
  Claim C5. Let the records of the list have distinct keys, as they have in every list
  that \<open>add_to_percentages\<close> has built from the empty list. A run whose two texts are
  the same leaves the list as it is. A run whose two texts are distinct (and so have
  distinct names) adds its size to the record of \<open>(text_a, text_b)\<close> and to the record
  of \<open>(text_b, text_a)\<close> and changes no other record; a record that does not exist yet
  is appended with the run's size and with \<open>size_a = tx_limit - tx_start\<close> of its first
  text. No addition changes the \<open>ma_size0\<close> of a record that is already there, and
  the keys stay distinct.
\<close>

theorem add_to_percentages_effect:
  assumes "distinct (map match_key ms)"
  shows
    "(ch_text (rn_chunk0 r) = ch_text (rn_chunk1 r) \<longrightarrow> add_to_percentages txts r ms = ms) \<and>
     (ch_text (rn_chunk0 r) \<noteq> ch_text (rn_chunk1 r) \<and>
      tx_fname (txts ! ch_text (rn_chunk0 r)) \<noteq> tx_fname (txts ! ch_text (rn_chunk1 r)) \<longrightarrow>
        add_to_percentages txts r ms
          = map (add_size (tx_fname (txts ! ch_text (rn_chunk1 r)),
                           tx_fname (txts ! ch_text (rn_chunk0 r))) (rn_size r)
                 \<circ> add_size (tx_fname (txts ! ch_text (rn_chunk0 r)),
                             tx_fname (txts ! ch_text (rn_chunk1 r))) (rn_size r)) ms
            @ (if (tx_fname (txts ! ch_text (rn_chunk0 r)), tx_fname (txts ! ch_text (rn_chunk1 r)))
                    \<in> match_key ` set ms
               then []
               else [new_match txts (ch_text (rn_chunk0 r)) (ch_text (rn_chunk1 r)) (rn_size r)])
            @ (if (tx_fname (txts ! ch_text (rn_chunk1 r)), tx_fname (txts ! ch_text (rn_chunk0 r)))
                    \<in> match_key ` set ms
               then []
               else [new_match txts (ch_text (rn_chunk1 r)) (ch_text (rn_chunk0 r)) (rn_size r)])) \<and>
     map ma_size0 (take (length ms) (add_to_percentages txts r ms)) = map ma_size0 ms \<and>
     distinct (map match_key (add_to_percentages txts r ms))"
proof (intro conjI impI)
  show "add_to_percentages txts r ms = ms" if "ch_text (rn_chunk0 r) = ch_text (rn_chunk1 r)"
    using that by (simp add: add_to_percentages_def)
next
  let ?a = "rn_chunk0 r" and ?b = "rn_chunk1 r"
  let ?ka = "(tx_fname (txts ! ch_text ?a), tx_fname (txts ! ch_text ?b))"
  let ?kb = "(tx_fname (txts ! ch_text ?b), tx_fname (txts ! ch_text ?a))"
  assume h: "ch_text ?a \<noteq> ch_text ?b \<and> tx_fname (txts ! ch_text ?a) \<noteq> tx_fname (txts ! ch_text ?b)"
  let ?ms1 = "do_add_to_precentages txts ?a ?b (rn_size r) ms"
  have d1: "distinct (map match_key ?ms1)" by (rule do_add_distinct[OF assms])
  have e1: "?ms1 = map (add_size ?ka (rn_size r)) ms
                   @ (if ?ka \<in> match_key ` set ms then [] else [new_match txts (ch_text ?a) (ch_text ?b) (rn_size r)])"
    by (rule do_add_general[OF assms])
  have k1: "?kb \<in> match_key ` set ?ms1 \<longleftrightarrow> ?kb \<in> match_key ` set ms"
    unfolding e1 using h by (auto simp: image_iff)
  have n: "add_size ?kb (rn_size r) (new_match txts (ch_text ?a) (ch_text ?b) (rn_size r))
             = new_match txts (ch_text ?a) (ch_text ?b) (rn_size r)"
    using h by (simp add: add_size_def)
  have "add_to_percentages txts r ms = do_add_to_precentages txts ?b ?a (rn_size r) ?ms1"
    using h by (simp add: add_to_percentages_def)
  also have "\<dots> = map (add_size ?kb (rn_size r)) ?ms1
                   @ (if ?kb \<in> match_key ` set ?ms1 then [] else [new_match txts (ch_text ?b) (ch_text ?a) (rn_size r)])"
    by (rule do_add_general[OF d1])
  finally show "add_to_percentages txts r ms
          = map (add_size ?kb (rn_size r) \<circ> add_size ?ka (rn_size r)) ms
            @ (if ?ka \<in> match_key ` set ms then []
               else [new_match txts (ch_text ?a) (ch_text ?b) (rn_size r)])
            @ (if ?kb \<in> match_key ` set ms then []
               else [new_match txts (ch_text ?b) (ch_text ?a) (rn_size r)])"
    unfolding k1 unfolding e1 using n by simp
next
  let ?ms1 = "do_add_to_precentages txts (rn_chunk0 r) (rn_chunk1 r) (rn_size r) ms"
  have d1: "distinct (map match_key ?ms1)" by (rule do_add_distinct[OF assms])
  have l1: "length ms \<le> length ?ms1"
    unfolding do_add_general[OF assms] by simp
  have "map ma_size0 (take (length ms)
            (do_add_to_precentages txts (rn_chunk1 r) (rn_chunk0 r) (rn_size r) ?ms1))
          = take (length ms) (map ma_size0 (take (length ?ms1)
            (do_add_to_precentages txts (rn_chunk1 r) (rn_chunk0 r) (rn_size r) ?ms1)))"
    using l1 by (simp add: take_map min_def)
  also have "\<dots> = take (length ms) (map ma_size0 ?ms1)"
    unfolding do_add_size0[OF d1] ..
  also have "\<dots> = map ma_size0 (take (length ms) ?ms1)"
    by (simp add: take_map)
  also have "\<dots> = map ma_size0 ms"
    by (rule do_add_size0[OF assms])
  finally show "map ma_size0 (take (length ms) (add_to_percentages txts r ms)) = map ma_size0 ms"
    by (simp add: add_to_percentages_def)
next
  show "distinct (map match_key (add_to_percentages txts r ms))"
    using assms by (simp add: add_to_percentages_def do_add_distinct)
qed

theorem add_to_percentages_effect_witness:
  "add_to_percentages
     [\<lparr>tx_fname = ''A'', tx_start = 1, tx_limit = 11\<rparr>,
      \<lparr>tx_fname = ''B'', tx_start = 11, tx_limit = 21\<rparr>]
     \<lparr>rn_chunk0 = \<lparr>ch_text = 0\<rparr>, rn_chunk1 = \<lparr>ch_text = 1\<rparr>, rn_size = 5\<rparr>
     []
   = [\<lparr>ma_fname0 = ''A'', ma_fname1 = ''B'', ma_size = 5, ma_size0 = 10\<rparr>,
      \<lparr>ma_fname0 = ''B'', ma_fname1 = ''A'', ma_size = 5, ma_size0 = 10\<rparr>] \<and>
   add_to_percentages
     [\<lparr>tx_fname = ''A'', tx_start = 1, tx_limit = 11\<rparr>,
      \<lparr>tx_fname = ''B'', tx_start = 11, tx_limit = 21\<rparr>]
     \<lparr>rn_chunk0 = \<lparr>ch_text = 0\<rparr>, rn_chunk1 = \<lparr>ch_text = 1\<rparr>, rn_size = 3\<rparr>
     [\<lparr>ma_fname0 = ''A'', ma_fname1 = ''B'', ma_size = 5, ma_size0 = 10\<rparr>,
      \<lparr>ma_fname0 = ''B'', ma_fname1 = ''A'', ma_size = 5, ma_size0 = 10\<rparr>]
   = [\<lparr>ma_fname0 = ''A'', ma_fname1 = ''B'', ma_size = 8, ma_size0 = 10\<rparr>,
      \<lparr>ma_fname0 = ''B'', ma_fname1 = ''A'', ma_size = 8, ma_size0 = 10\<rparr>] \<and>
   add_to_percentages
     [\<lparr>tx_fname = ''A'', tx_start = 1, tx_limit = 11\<rparr>,
      \<lparr>tx_fname = ''B'', tx_start = 11, tx_limit = 21\<rparr>]
     \<lparr>rn_chunk0 = \<lparr>ch_text = 1\<rparr>, rn_chunk1 = \<lparr>ch_text = 1\<rparr>, rn_size = 3\<rparr>
     [\<lparr>ma_fname0 = ''A'', ma_fname1 = ''B'', ma_size = 5, ma_size0 = 10\<rparr>,
      \<lparr>ma_fname0 = ''B'', ma_fname1 = ''A'', ma_size = 5, ma_size0 = 10\<rparr>]
   = [\<lparr>ma_fname0 = ''A'', ma_fname1 = ''B'', ma_size = 5, ma_size0 = 10\<rparr>,
      \<lparr>ma_fname0 = ''B'', ma_fname1 = ''A'', ma_size = 5, ma_size0 = 10\<rparr>]"
proof -
  let ?txts = "[\<lparr>tx_fname = ''A'', tx_start = 1, tx_limit = 11\<rparr>,
                \<lparr>tx_fname = ''B'', tx_start = 11, tx_limit = 21\<rparr>]"
  let ?ms = "[\<lparr>ma_fname0 = ''A'', ma_fname1 = ''B'', ma_size = 5, ma_size0 = 10\<rparr>,
              \<lparr>ma_fname0 = ''B'', ma_fname1 = ''A'', ma_size = 5, ma_size0 = 10\<rparr>]"
  have d0: "distinct (map match_key ([] :: string match list))"
    by simp
  have d1: "distinct (map match_key ?ms)"
    by (simp add: match_key_def)
  show ?thesis
    using add_to_percentages_effect
        [OF d0, of "\<lparr>rn_chunk0 = \<lparr>ch_text = 0\<rparr>, rn_chunk1 = \<lparr>ch_text = 1\<rparr>, rn_size = 5\<rparr>" ?txts]
      add_to_percentages_effect
        [OF d1, of "\<lparr>rn_chunk0 = \<lparr>ch_text = 0\<rparr>, rn_chunk1 = \<lparr>ch_text = 1\<rparr>, rn_size = 3\<rparr>" ?txts]
      add_to_percentages_effect
        [OF d1, of "\<lparr>rn_chunk0 = \<lparr>ch_text = 1\<rparr>, rn_chunk1 = \<lparr>ch_text = 1\<rparr>, rn_size = 3\<rparr>" ?txts]
    by (simp add: new_match_def add_size_def match_key_def size_t_sub_def size_t_add_def)
qed

subsection \<open>Printing the percentages\<close>

lemma reports_mono: "reports thr ms l \<Longrightarrow> set ms \<subseteq> set ms' \<Longrightarrow> reports thr ms' l"
  by (auto simp: reports_def)

lemma print_perc_info_reports:
  "print_perc_info thr m = Some out \<Longrightarrow> l \<in> set out \<Longrightarrow> reports thr [m] l"
  by (auto simp: print_perc_info_def reports_def Let_def min_def split: option.splits if_splits)

lemma print_perc_info_defined:
  "match_percent m \<noteq> None \<Longrightarrow> \<exists>out. print_perc_info thr m = Some out"
  by (auto simp: print_perc_info_def Let_def)

lemma remove_contributors_result:
  "remove_contributors opt_P thr fname ms = Some (outs, rest)
   \<Longrightarrow> rest = filter (\<lambda>m. ma_fname0 m \<noteq> fname) ms \<and> (\<forall>l \<in> set outs. reports thr ms l)"
proof (induction ms arbitrary: outs rest)
  case Nil
  then show ?case by simp
next
  case (Cons m ms)
  show ?case
  proof (cases "ma_fname0 m = fname")
    case True
    with Cons.prems obtain out outs' where
      o: "(if \<not> opt_P then print_perc_info thr m else Some []) = Some out"
      and r: "remove_contributors opt_P thr fname ms = Some (outs', rest)"
      and e: "outs = out @ outs'"
      by (auto split: option.splits)
    from o have "\<forall>l \<in> set out. reports thr (m # ms) l"
      by (auto split: if_splits dest!: print_perc_info_reports intro: reports_mono)
    moreover from Cons.IH[OF r] have "rest = filter (\<lambda>m. ma_fname0 m \<noteq> fname) ms"
      and "\<forall>l \<in> set outs'. reports thr (m # ms) l"
      by (auto intro: reports_mono)
    ultimately show ?thesis using True e by auto
  next
    case False
    with Cons.prems obtain rest' where
      r: "remove_contributors opt_P thr fname ms = Some (outs, rest')"
      and e: "rest = m # rest'"
      by (auto split: option.splits)
    from Cons.IH[OF r] have "rest' = filter (\<lambda>m. ma_fname0 m \<noteq> fname) ms"
      and "\<forall>l \<in> set outs. reports thr (m # ms) l"
      by (auto intro: reports_mono)
    then show ?thesis using False e by auto
  qed
qed

lemma remove_contributors_defined:
  "\<forall>m \<in> set ms. match_percent m \<noteq> None
   \<Longrightarrow> \<exists>outs rest. remove_contributors opt_P thr fname ms = Some (outs, rest)"
proof (induction ms)
  case Nil
  then show ?case by simp
next
  case (Cons m ms)
  then obtain outs rest where r: "remove_contributors opt_P thr fname ms = Some (outs, rest)"
    by auto
  from Cons.prems obtain out where o: "print_perc_info thr m = Some out"
    using print_perc_info_defined[of m thr] by auto
  show ?case using r o by auto
qed

lemma print_and_remove_result:
  assumes "print_and_remove_perc_info_for_top_file opt_P thr ms = Some (outs, rest)"
  shows "ms \<noteq> [] \<and> rest = filter (\<lambda>m. ma_fname0 m \<noteq> ma_fname0 (hd ms)) (tl ms) \<and>
         (\<forall>l \<in> set outs. reports thr ms l)"
proof (cases ms)
  case Nil
  with assms show ?thesis by simp
next
  case (Cons m ms')
  with assms obtain out outs' where o: "print_perc_info thr m = Some out"
    and r: "remove_contributors opt_P thr (ma_fname0 m) ms' = Some (outs', rest)"
    and e: "outs = out @ outs'"
    by (auto split: option.splits)
  from o have "\<forall>l \<in> set out. reports thr ms l"
    unfolding Cons by (auto dest!: print_perc_info_reports intro: reports_mono)
  moreover from remove_contributors_result[OF r]
  have "rest = filter (\<lambda>m'. ma_fname0 m' \<noteq> ma_fname0 m) ms'"
    and "\<forall>l \<in> set outs'. reports thr ms l"
    unfolding Cons by (auto intro: reports_mono)
  ultimately show ?thesis using e Cons by auto
qed

lemma print_and_remove_defined:
  assumes "\<forall>m \<in> set ms. match_percent m \<noteq> None" and "ms \<noteq> []"
  shows "\<exists>outs. print_and_remove_perc_info_for_top_file opt_P thr ms
           = Some (outs, filter (\<lambda>m. ma_fname0 m \<noteq> ma_fname0 (hd ms)) (tl ms))"
proof -
  from assms(2) obtain m ms' where ms: "ms = m # ms'" by (cases ms) auto
  from assms(1) obtain out where o: "print_perc_info thr m = Some out"
    using print_perc_info_defined[of m thr] by (auto simp: ms)
  from assms(1) obtain outs rest
    where r: "remove_contributors opt_P thr (ma_fname0 m) ms' = Some (outs, rest)"
    using remove_contributors_defined[of ms' opt_P thr "ma_fname0 m"] by (auto simp: ms)
  have p: "print_and_remove_perc_info_for_top_file opt_P thr ms = Some (out @ outs, rest)"
    using o r by (simp add: ms)
  from print_and_remove_result[OF p] show ?thesis using p by auto
qed

lemma print_percentages_total:
  "\<forall>m \<in> set ms. match_percent m \<noteq> None
   \<Longrightarrow> \<exists>out. print_percentages opt_P thr ms = Some out \<and> (\<forall>l \<in> set out. reports thr ms l)"
proof (induction opt_P thr ms rule: print_percentages.induct)
  case (1 opt_P thr ms)
  show ?case
  proof (cases "ms = []")
    case True
    then show ?thesis by (simp add: print_percentages.simps)
  next
    case False
    from print_and_remove_defined[OF "1.prems" False, of opt_P thr] obtain outs where
      p: "print_and_remove_perc_info_for_top_file opt_P thr ms
           = Some (outs, filter (\<lambda>m. ma_fname0 m \<noteq> ma_fname0 (hd ms)) (tl ms))"
      by auto
    let ?rest = "filter (\<lambda>m. ma_fname0 m \<noteq> ma_fname0 (hd ms)) (tl ms)"
    have sub: "set ?rest \<subseteq> set ms"
      using False by (cases ms) auto
    then have "\<forall>m \<in> set ?rest. match_percent m \<noteq> None"
      using "1.prems" by auto
    from "1.IH"[OF False p refl this] obtain more_outs where
      m: "print_percentages opt_P thr ?rest = Some more_outs"
      and mr: "\<forall>l \<in> set more_outs. reports thr ?rest l"
      by auto
    have "print_percentages opt_P thr ms = Some (outs @ more_outs)"
      using False p m by (subst print_percentages.simps) simp
    moreover have "\<forall>l \<in> set outs. reports thr ms l"
      using print_and_remove_result[OF p] by simp
    moreover have "\<forall>l \<in> set more_outs. reports thr ms l"
      using mr reports_mono[OF _ sub] by blast
    ultimately show ?thesis by auto
  qed
qed

lemmas fl_eval = fl_def binade_def pow2_def round_half_even_def halvings.simps doublings.simps

lemma match_percent_5_of_10:
  "match_percent \<lparr>ma_fname0 = a, ma_fname1 = b, ma_size = 5, ma_size0 = 10\<rparr> = Some 50"
  by (simp add: match_percent_def fl_eval Let_def)

lemma match_percent_29_of_100:
  "match_percent \<lparr>ma_fname0 = a, ma_fname1 = b, ma_size = 29, ma_size0 = 100\<rparr> = Some 28"
  by (simp add: match_percent_def fl_eval Let_def)

text \<open>
  What the printing loop does. Let \<open>P0\<close> of a record be \<open>match_percent\<close>, the \<open>int\<close> that
  the floating-point expression \<open>(int)(((float)ma_size / (float)ma_size0) * 100.0)\<close>
  yields, and let it be defined for every record of the list. Then \<open>print_percentages\<close>
  returns, every line it prints belongs to a record of the list and reports
  \<open>min(100, P0)\<close> of that record, which is at most 100 and at least the threshold. One
  call of \<open>print_and_remove_perc_info_for_top_file\<close> removes the head record and every
  record with the same first file name, printed or not.
\<close>

lemma print_percentages_lines:
  assumes "\<forall>m \<in> set ms. match_percent m \<noteq> None"
  shows "(\<exists>out. print_percentages opt_P thr ms = Some out \<and>
            (\<forall>l \<in> set out. \<exists>m \<in> set ms. \<exists>mp0.
                match_percent m = Some mp0 \<and>
                l = Perc_Line (ma_fname0 m) (min 100 mp0) (ma_fname1 m) \<and>
                min 100 mp0 \<le> 100 \<and> thr \<le> min 100 mp0)) \<and>
         (ms \<noteq> [] \<longrightarrow>
            (\<exists>outs. print_and_remove_perc_info_for_top_file opt_P thr ms
                 = Some (outs, filter (\<lambda>m. ma_fname0 m \<noteq> ma_fname0 (hd ms)) (tl ms))))"
proof (intro conjI impI)
  from print_percentages_total[OF assms, of opt_P thr]
  show "\<exists>out. print_percentages opt_P thr ms = Some out \<and>
            (\<forall>l \<in> set out. \<exists>m \<in> set ms. \<exists>mp0.
                match_percent m = Some mp0 \<and>
                l = Perc_Line (ma_fname0 m) (min 100 mp0) (ma_fname1 m) \<and>
                min 100 mp0 \<le> 100 \<and> thr \<le> min 100 mp0)"
    unfolding reports_def .
next
  assume "ms \<noteq> []"
  with assms show "\<exists>outs. print_and_remove_perc_info_for_top_file opt_P thr ms
                 = Some (outs, filter (\<lambda>m. ma_fname0 m \<noteq> ma_fname0 (hd ms)) (tl ms))"
    by (rule print_and_remove_defined)
qed

lemma print_percentages_lines_example:
  "match_percent \<lparr>ma_fname0 = ''A'', ma_fname1 = ''B'', ma_size = 5, ma_size0 = 10\<rparr> = Some 50 \<and>
   match_percent \<lparr>ma_fname0 = ''B'', ma_fname1 = ''A'', ma_size = 5, ma_size0 = 10\<rparr> = Some 50 \<and>
   print_percentages False 1
     [\<lparr>ma_fname0 = ''A'', ma_fname1 = ''B'', ma_size = 5, ma_size0 = 10\<rparr>,
      \<lparr>ma_fname0 = ''B'', ma_fname1 = ''A'', ma_size = 5, ma_size0 = 10\<rparr>]
     = Some [Perc_Line ''A'' 50 ''B'', Perc_Line ''B'' 50 ''A''] \<and>
   print_and_remove_perc_info_for_top_file False 51
     [\<lparr>ma_fname0 = ''A'', ma_fname1 = ''B'', ma_size = 5, ma_size0 = 10\<rparr>,
      \<lparr>ma_fname0 = ''B'', ma_fname1 = ''A'', ma_size = 5, ma_size0 = 10\<rparr>]
     = Some ([], [\<lparr>ma_fname0 = ''B'', ma_fname1 = ''A'', ma_size = 5, ma_size0 = 10\<rparr>])"
proof -
  let ?ms = "[\<lparr>ma_fname0 = ''A'', ma_fname1 = ''B'', ma_size = 5, ma_size0 = 10\<rparr>,
              \<lparr>ma_fname0 = ''B'', ma_fname1 = ''A'', ma_size = 5, ma_size0 = 10\<rparr>]"
  have h: "\<forall>m \<in> set ?ms. match_percent m \<noteq> None"
    by (simp add: match_percent_5_of_10)
  show ?thesis
    using print_percentages_lines[OF h, of False 1] print_percentages_lines[OF h, of False 51]
    by (simp add: match_percent_5_of_10 print_perc_info_def print_percentages.simps)
qed

lemma match_percent_24_of_2400:
  "match_percent \<lparr>ma_fname0 = a, ma_fname1 = b, ma_size = 24, ma_size0 = 2400\<rparr> = Some 0"
  by (simp add: match_percent_def fl_eval Let_def)

lemma match_percent_33554431_of_33554432:
  "match_percent \<lparr>ma_fname0 = a, ma_fname1 = b, ma_size = 33554431, ma_size0 = 33554432\<rparr>
     = Some 100"
  by (simp add: match_percent_def fl_eval Let_def)

text \<open>
  Claim C4 says that every line printed reports
  \<open>P = min(100, floor(100 * shared_tokens / size_a))\<close>. \<open>print_perc_info\<close> computes
  \<open>(int)(match_percentage(m)*100.0)\<close> with a \<open>float\<close> quotient instead, and the two
  differ. For 29 shared tokens of 100 the quotient rounded to \<open>float\<close> lies below 0.29,
  the product with 100.0 is 28.99999917, and the line shows 28, not 29. For 24 of 2400,
  exactly 1 percent, the value is 0 and at the default threshold 1 no line is printed.
  For 33554431 of 33554432 the numerator rounds to 33554432 as a \<open>float\<close> and the line
  shows 100, not 99.
\<close>

theorem print_perc_info_truncates:
  "print_percentages False 1
     [\<lparr>ma_fname0 = ''A'', ma_fname1 = ''B'', ma_size = 29, ma_size0 = 100\<rparr>]
     = Some [Perc_Line ''A'' 28 ''B''] \<and>
   min 100 ((100 * 29) div 100) = (29 :: int) \<and>
   print_percentages False 1
     [\<lparr>ma_fname0 = ''A'', ma_fname1 = ''B'', ma_size = 24, ma_size0 = 2400\<rparr>]
     = Some [] \<and>
   min 100 ((100 * 24) div 2400) = (1 :: int) \<and>
   print_percentages False 1
     [\<lparr>ma_fname0 = ''A'', ma_fname1 = ''B'', ma_size = 33554431, ma_size0 = 33554432\<rparr>]
     = Some [Perc_Line ''A'' 100 ''B''] \<and>
   min 100 ((100 * 33554431) div 33554432) = (99 :: int)"
  by (simp add: match_percent_29_of_100 match_percent_24_of_2400
        match_percent_33554431_of_33554432 print_perc_info_def print_percentages.simps)


section \<open>Properties of sim.c\<close>

lemma atoi_minus_5: "atoi ''-5'' = - 5"
  by (simp add: atoi_def strtol_def LONG_MIN_def isspace_def isdigit_def int_wrap_def)

lemma atoi_beyond_long: "atoi ''9223372036854775808'' = - 1"
  by (simp add: atoi_def strtol_def LONG_MAX_def isspace_def isdigit_def int_wrap_def)

lemma no_options_compatible: "allow_at_most_one_out_of {} str = None"
proof -
  have "incompatible_with {} c str' = None" for c str'
    by (induction str') auto
  then show ?thesis by (induction str) auto
qed

text \<open>
  The run-size check of \<open>main\<close> is \<open>Min_Run_Size == 0\<close>: a run size that \<open>atoi\<close> reads
  as 0 ends the program (unless an earlier check or \<open>-v\<close> has ended it already).
\<close>

lemma main_zero_run_size_exits:
  assumes "min_run_string cl = Some str" and "atoi str = 0"
  shows "\<exists>msg. main_options d1 d2 cl = Fatal_Exit msg \<or> main_options d1 d2 cl = Version_Exit"
  using assms by (auto simp: main_options_def Let_def split: option.splits)

text \<open>
  Claim C6 says that a \<open>min_run_size\<close> of at most 0 is reported as an error before any
  work is done. With \<open>-r -5\<close> and no other option \<open>main\<close> reports nothing and starts the
  real work with \<open>Min_Run_Size = -5\<close>: the check compares with \<open>== 0\<close>, where the two
  checks next to it (page width, threshold) compare with \<open><= 0\<close>.
\<close>

theorem main_negative_run_size_accepted:
  "main_options 24 80
     \<lparr>options_set = {}, min_run_string = Some ''-5'', page_width_string = None,
      threshold_string = None, output_name = None, fopen_succeeds = True, n_file_args = 2\<rparr>
   = Real_Work \<lparr>par_Min_Run_Size = - 5, par_Page_Width = 80,
                  par_Threshold_Percentage = 1, par_options = {}\<rparr>"
  by (simp add: main_options_def no_options_compatible atoi_minus_5)

end
